theory Spec2Isabelle
  imports Complex_Main "HOL-Library.Log_Nat" "HOL-Library.Sublist"
begin

section \<open>JavaScript values used by the server\<close>

subsection \<open>Numbers\<close>

text \<open>
  A JavaScript number is an IEEE 754 double. Every finite double is a rational, so the
  durations and cut amounts of the server are modelled as \<^typ>\<open>rat\<close>, and each
  subtraction of the source is followed by the rounding the machine performs (round to
  nearest, ties to even, 53 significant bits, gradual underflow below \<open>2^-1022\<close>).
  \<open>NaN\<close> is modelled as \<open>None\<close> where the source can produce it; infinities and
  the sign of zero are outside the model.
\<close>

definition pow2 :: "int \<Rightarrow> rat" where
  "pow2 k = (if 0 \<le> k then 2 ^ nat k else 1 / 2 ^ nat (- k))"

definition floor_log2 :: "rat \<Rightarrow> int" where
  "floor_log2 x =
     (let (p, q) = quotient_of x; k = bitlen p - bitlen q
      in if pow2 k \<le> x then k else k - 1)"

definition round_half_even :: "rat \<Rightarrow> int" where
  "round_half_even y =
     (let f = \<lfloor>y\<rfloor>; r = y - of_int f
      in if r < 1 / 2 then f
         else if 1 / 2 < r then f + 1
         else if even f then f else f + 1)"

definition fl :: "rat \<Rightarrow> rat" where
  "fl x =
     (if x = 0 then 0
      else let a = \<bar>x\<bar>;
               e = max (- 1074) (floor_log2 a - 52);
               m = round_half_even (a / pow2 e)
           in sgn x * of_int m * pow2 e)"

text \<open>A rational is a finite double when rounding leaves it alone and it is in range.\<close>

definition representable :: "rat \<Rightarrow> bool" where
  "representable x \<longleftrightarrow> fl x = x \<and> \<bar>x\<bar> < pow2 1024"

text \<open>The source's binary \<open>-\<close> on numbers.\<close>

definition js_sub :: "rat \<Rightarrow> rat \<Rightarrow> rat" where
  "js_sub x y = fl (x - y)"

text \<open>
  The exponent of the last bit that \<open>fl\<close> keeps for a magnitude \<open>a\<close>: \<open>fl x\<close> is a
  multiple of \<open>pow2 (ulp_exp \<bar>x\<bar>)\<close>. It names the \<open>e\<close> of the definition of \<open>fl\<close> in
  the proofs about rounding.
\<close>

definition ulp_exp :: "rat \<Rightarrow> int" where
  "ulp_exp a = max (- 1074) (floor_log2 a - 52)"

text \<open>\<open>parseFloat(v) || 0\<close>, applied to the result of \<open>parseFloat\<close>: \<open>NaN\<close> and \<open>0\<close> give \<open>0\<close>.\<close>

definition or_zero :: "rat option \<Rightarrow> rat" where
  "or_zero v = (case v of None \<Rightarrow> 0 | Some x \<Rightarrow> x)"

subsection \<open>Strings\<close>

text \<open>
  Strings are lists of 8-bit characters, read as the code units \<open>U+0000\<close> to
  \<open>U+00FF\<close>; the model covers the strings made of these. The white space removed by
  \<open>String.prototype.trim\<close> and skipped by \<open>parseInt\<close> is, in this range, tab, line
  feed, vertical tab, form feed, carriage return, space and the no-break space
  \<open>U+00A0\<close>.
\<close>

definition is_space :: "char \<Rightarrow> bool" where
  "is_space c \<longleftrightarrow>
     c \<in> set [CHR 0x09, CHR 0x0A, CHR 0x0B, CHR 0x0C, CHR 0x0D, CHR '' '', CHR 0xA0]"

definition trim :: "string \<Rightarrow> string" where
  "trim s = rev (dropWhile is_space (rev (dropWhile is_space s)))"

text \<open>
  \<open>String.prototype.toLowerCase\<close> on this range: the letters \<open>A\<close> to \<open>Z\<close> and the
  capital letters from \<open>U+00C0\<close> to \<open>U+00DE\<close> (the multiplication sign \<open>U+00D7\<close>
  is not one) move up by 32.
\<close>

definition lower_char :: "char \<Rightarrow> char" where
  "lower_char c =
     (let n = (of_char c :: nat)
      in if (65 \<le> n \<and> n \<le> 90) \<or> (192 \<le> n \<and> n \<le> 222 \<and> n \<noteq> 215)
         then char_of (n + 32) else c)"

definition toLowerCase :: "string \<Rightarrow> string" where
  "toLowerCase s = map lower_char s"

fun intercalate :: "string \<Rightarrow> string list \<Rightarrow> string" where
  "intercalate sep [] = []"
| "intercalate sep [x] = x"
| "intercalate sep (x # y # ys) = x @ sep @ intercalate sep (y # ys)"

text \<open>\<open>s.split(c)\<close> for a one-character separator: always at least one part.\<close>

fun split_on :: "char \<Rightarrow> string \<Rightarrow> string list" where
  "split_on c [] = [[]]"
| "split_on c (x # xs) =
     (if x = c then [] # split_on c xs
      else (case split_on c xs of [] \<Rightarrow> [[x]] | s # ss \<Rightarrow> (x # s) # ss))"

text \<open>\<open>s.replace(/lit/, "")\<close> for a literal pattern: the first occurrence is deleted.\<close>

fun remove_first :: "string \<Rightarrow> string \<Rightarrow> string" where
  "remove_first pat [] = []"
| "remove_first pat (x # xs) =
     (if prefix pat (x # xs) then drop (length pat) (x # xs)
      else x # remove_first pat xs)"

text \<open>
  \<open>/a|b|c/.test(s)\<close> for literal alternatives: the pattern is not anchored, so it
  succeeds when some alternative starts at some position of \<open>s\<close>.
\<close>

fun regex_test :: "string list \<Rightarrow> string \<Rightarrow> bool" where
  "regex_test alts [] = list_ex (\<lambda>a. a = []) alts"
| "regex_test alts (x # xs) =
     (list_ex (\<lambda>a. prefix a (x # xs)) alts \<or> regex_test alts xs)"

text \<open>Decimal rendering of a non-negative integer, as a template literal does.\<close>

definition digit_char :: "nat \<Rightarrow> char" where
  "digit_char d = char_of (48 + d)"

fun string_of_nat :: "nat \<Rightarrow> string" where
  "string_of_nat n =
     (if n < 10 then [digit_char n]
      else string_of_nat (n div 10) @ [digit_char (n mod 10)])"

declare string_of_nat.simps [simp del]

text \<open>
  \<open>parseInt(s, 10)\<close>: leading white space is skipped, one sign is accepted, then the
  longest run of decimal digits is read; with no digit the result is \<open>NaN\<close>.
\<close>

definition is_digit :: "char \<Rightarrow> bool" where
  "is_digit c \<longleftrightarrow> (48::nat) \<le> of_char c \<and> of_char c \<le> (57::nat)"

definition digit_val :: "char \<Rightarrow> nat" where
  "digit_val c = of_char c - 48"

definition digits_value :: "string \<Rightarrow> nat" where
  "digits_value ds = foldl (\<lambda>acc c. 10 * acc + digit_val c) 0 ds"

definition parse_digits :: "string \<Rightarrow> nat option" where
  "parse_digits s =
     (let ds = takeWhile is_digit s
      in if ds = [] then None else Some (digits_value ds))"

definition parseInt :: "string \<Rightarrow> int option" where
  "parseInt s =
     (case dropWhile is_space s of
        [] \<Rightarrow> None
      | c # cs \<Rightarrow>
          if c = CHR ''-'' then map_option (\<lambda>n. - int n) (parse_digits cs)
          else if c = CHR ''+'' then map_option int (parse_digits cs)
          else map_option int (parse_digits (c # cs)))"

subsection \<open>The \<open>path\<close> module (POSIX)\<close>

text \<open>
  \<open>path.extname\<close>: trailing separators are ignored, the last path component is taken,
  and the extension runs from its last dot to its end; it is empty when there is no dot,
  when the only dot is the first character of the component, and for the component \<open>..\<close>.
\<close>

definition last_component :: "string \<Rightarrow> string" where
  "last_component p =
     rev (takeWhile (\<lambda>c. c \<noteq> CHR ''/'') (dropWhile (\<lambda>c. c = CHR ''/'') (rev p)))"

definition extname :: "string \<Rightarrow> string" where
  "extname p =
     (let base = last_component p;
          e = rev (takeWhile (\<lambda>c. c \<noteq> CHR ''.'') (rev base))
      in if CHR ''.'' \<notin> set base then []
         else if Suc (length e) = length base then []
         else if base = ''..'' then []
         else CHR ''.'' # e)"

text \<open>
  \<open>path.normalize\<close>: empty and \<open>.\<close> segments disappear, \<open>..\<close> removes the segment
  before it (at the root of an absolute path it disappears, in a relative path it is kept
  when nothing is left to remove), a trailing separator is kept. The stack of segments is
  held in reverse.
\<close>

definition norm_step :: "bool \<Rightarrow> string list \<Rightarrow> string \<Rightarrow> string list" where
  "norm_step allowAboveRoot st seg =
     (if seg = [] \<or> seg = ''.'' then st
      else if seg = ''..'' then
        (case st of
           [] \<Rightarrow> if allowAboveRoot then [''..''] else []
         | t # ts \<Rightarrow>
             if t = ''..'' then (if allowAboveRoot then ''..'' # st else st) else ts)
      else seg # st)"

definition normalize_path :: "string \<Rightarrow> string" where
  "normalize_path p =
     (if p = [] then ''.''
      else
        let isAbsolute = (hd p = CHR ''/'');
            trailingSeparator = (last p = CHR ''/'');
            segs = rev (foldl (norm_step (\<not> isAbsolute)) [] (split_on CHR ''/'' p));
            s = intercalate ''/'' segs
        in if s = [] then (if isAbsolute then ''/'' else if trailingSeparator then ''./'' else ''.'')
           else (if isAbsolute then ''/'' else []) @ s @ (if trailingSeparator then ''/'' else []))"

text \<open>\<open>path.join\<close>: the non-empty arguments are joined with \<open>/\<close> and normalised.\<close>

definition join :: "string list \<Rightarrow> string" where
  "join args =
     (let parts = filter (\<lambda>a. a \<noteq> []) args
      in if parts = [] then ''.'' else normalize_path (intercalate ''/'' parts))"

section \<open>Upload: the file filter\<close>

text \<open>
  \<open>fileFilter\<close> of the multer configuration (identical in every listing of the server):
  one unanchored pattern is tested against the lower-cased extension of the original name
  and against \<open>file.mimetype\<close>, the content type multer reports for the part.
\<close>

record upload_file =
  originalname :: string
  mimetype :: string

definition allowedTypes :: "string list" where
  "allowedTypes = [''mp4'', ''mov'', ''avi'', ''mkv'', ''webm'']"

definition fileFilter :: "upload_file \<Rightarrow> string + unit" where
  "fileFilter file =
     (let extname_ok = regex_test allowedTypes (toLowerCase (extname (originalname file)));
          mimetype_ok = regex_test allowedTypes (mimetype file)
      in if extname_ok \<and> mimetype_ok then Inr ()
         else Inl ''Only video files are allowed'')"

section \<open>Retrieve output file: \<open>GET /api/output/:sessionId/:filename\<close>\<close>

text \<open>
  The disk is a map from paths to file contents. The handler answers in one of two ways:
  it writes a status and headers and pipes bytes to the client, or it sends a JSON error
  body with \<open>res.status(n).json({ error: message })\<close>. For a piped answer the headers
  are those the handler writes itself, in the order it writes them; the headers of a JSON
  answer are Express's and are not modelled. The message of an error thrown by Node is
  Node's own text for that error; the model keeps the error instead of its text.

  \<open>fs.createReadStream\<close> validates its \<open>start\<close> and \<open>end\<close> options when it is
  called: each must be an integer between \<open>0\<close> and \<open>2^53 - 1\<close>, and \<open>start\<close> must not
  exceed \<open>end\<close>; otherwise it throws \<open>ERR_OUT_OF_RANGE\<close> for the option named.
  \<open>res.setHeader\<close> throws \<open>ERR_INVALID_CHAR\<close> when the value holds a character
  other than tab, \<open>U+0020\<close> to \<open>U+007E\<close> and \<open>U+0080\<close> to \<open>U+00FF\<close>. Both are
  caught by the handler's \<open>catch\<close>, which answers 500 with the error's message.
\<close>

datatype node_error = ERR_OUT_OF_RANGE string | ERR_INVALID_CHAR string

datatype error_body = Message string | MessageOf node_error

datatype http_response =
    Piped nat "(string \<times> string) list" string
  | Json nat error_body

fun status :: "http_response \<Rightarrow> nat" where
  "status (Piped n hs bytes) = n"
| "status (Json n b) = n"

definition MAX_SAFE_INTEGER :: int where
  "MAX_SAFE_INTEGER = 2 ^ 53 - 1"

definition checkPosition :: "int option \<Rightarrow> bool" where
  "checkPosition pos = (case pos of None \<Rightarrow> False | Some n \<Rightarrow> 0 \<le> n \<and> n \<le> MAX_SAFE_INTEGER)"

definition createReadStream_options :: "int option \<Rightarrow> int option \<Rightarrow> node_error + (nat \<times> nat)" where
  "createReadStream_options start end =
     (if \<not> checkPosition start then Inl (ERR_OUT_OF_RANGE ''start'')
      else if \<not> checkPosition end then Inl (ERR_OUT_OF_RANGE ''end'')
      else (case (start, end) of
              (Some s, Some e) \<Rightarrow>
                if e < s then Inl (ERR_OUT_OF_RANGE ''start'') else Inr (nat s, nat e)
            | _ \<Rightarrow> Inl (ERR_OUT_OF_RANGE ''start'')))"

definition valid_header_char :: "char \<Rightarrow> bool" where
  "valid_header_char c \<longleftrightarrow>
     c = CHR 0x09 \<or> ((32::nat) \<le> of_char c \<and> of_char c \<le> (126::nat)) \<or> (128::nat) \<le> of_char c"

definition content_disposition :: "string \<Rightarrow> string" where
  "content_disposition filename = ''attachment; filename='' @ [CHR 0x22] @ filename @ [CHR 0x22]"

definition full_response :: "string \<Rightarrow> string \<Rightarrow> http_response" where
  "full_response filename content =
     (if list_all valid_header_char (content_disposition filename)
      then Piped 200
             [(''Content-Type'', ''video/mp4''),
              (''Content-Length'', string_of_nat (length content)),
              (''Content-Disposition'', content_disposition filename)]
             content
      else Json 500 (MessageOf (ERR_INVALID_CHAR ''Content-Disposition'')))"

definition partial_response :: "string \<Rightarrow> nat \<Rightarrow> nat \<Rightarrow> http_response" where
  "partial_response content start end =
     (let fileSize = length content;
          chunksize = (end - start) + 1
      in Piped 206
           [(''Content-Range'',
               ''bytes '' @ string_of_nat start @ ''-'' @ string_of_nat end
                 @ ''/'' @ string_of_nat fileSize),
            (''Accept-Ranges'', ''bytes''),
            (''Content-Length'', string_of_nat chunksize),
            (''Content-Type'', ''video/mp4'')]
           (take chunksize (drop start content)))"

definition serve_output ::
  "string \<Rightarrow> (string \<Rightarrow> string option) \<Rightarrow> string \<Rightarrow> string \<Rightarrow> string option \<Rightarrow> http_response" where
  "serve_output OUTPUT_DIR disk sessionId filename rangeHeader =
     (let filePath = join [OUTPUT_DIR, sessionId, filename]
      in case disk filePath of
           None \<Rightarrow> Json 404 (Message ''File not found'')
         | Some content \<Rightarrow>
             (case rangeHeader of
                None \<Rightarrow> full_response filename content
              | Some r \<Rightarrow>
                  if r = [] then full_response filename content
                  else
                    let parts = split_on CHR ''-'' (remove_first ''bytes='' r);
                        start = parseInt (parts ! 0);
                        end = (if 1 < length parts \<and> parts ! 1 \<noteq> []
                               then parseInt (parts ! 1)
                               else Some (int (length content) - 1))
                    in (case createReadStream_options start end of
                          Inl err \<Rightarrow> Json 500 (MessageOf err)
                        | Inr (s, e) \<Rightarrow> partial_response content s e)))"

section \<open>Process: \<open>POST /api/process\<close>\<close>

subsection \<open>Trim planning, in the two forms the listings use\<close>

text \<open>
  The re-encoding listing computes the absolute end time and passes \<open>-ss S -to endTime\<close>;
  the stream-copy listings compute the new duration and pass the start \<open>S\<close> and the
  duration (\<open>-ss S -t newDuration\<close>, or \<open>setStartTime\<close> and \<open>setDuration\<close>). A file
  that is too short is skipped: the planner returns \<open>None\<close>.
\<close>

datatype trim_args = SeekTo rat rat | SeekDuration rat rat

definition plan_end_time :: "rat \<Rightarrow> rat \<Rightarrow> rat \<Rightarrow> trim_args option" where
  "plan_end_time videoDuration trimStartSeconds trimEndSeconds =
     (let endTime = js_sub videoDuration trimEndSeconds
      in if endTime \<le> trimStartSeconds then None
         else Some (SeekTo trimStartSeconds endTime))"

definition plan_duration :: "rat \<Rightarrow> rat \<Rightarrow> rat \<Rightarrow> trim_args option" where
  "plan_duration videoDuration trimStartSeconds trimEndSeconds =
     (let newDuration = js_sub (js_sub videoDuration trimStartSeconds) trimEndSeconds
      in if newDuration \<le> 0 then None
         else Some (SeekDuration trimStartSeconds newDuration))"

text \<open>The interval of the source's timeline that the engine keeps for given arguments.\<close>

fun window :: "trim_args \<Rightarrow> rat \<times> rat" where
  "window (SeekTo s e) = (s, e)"
| "window (SeekDuration s d) = (s, s + d)"

subsection \<open>Deployments\<close>

datatype policy = EndTime | Duration

record deployment =
  d_policy :: policy
  d_outputDir :: string
  d_urlPrefix :: string

definition api_reencode :: deployment where
  "api_reencode =
     \<lparr>d_policy = EndTime, d_outputDir = join [''/tmp'', ''output''], d_urlPrefix = ''/api/output/''\<rparr>"

definition api_streamcopy :: deployment where
  "api_streamcopy =
     \<lparr>d_policy = Duration, d_outputDir = join [''/tmp'', ''output''], d_urlPrefix = ''/api/output/''\<rparr>"


definition plan :: "policy \<Rightarrow> rat \<Rightarrow> rat \<Rightarrow> rat \<Rightarrow> trim_args option" where
  "plan p = (case p of EndTime \<Rightarrow> plan_end_time | Duration \<Rightarrow> plan_duration)"

subsection \<open>The batch loop\<close>

text \<open>
  The file system and the transcoding engine are external. Each iteration of the loop asks
  them at most three questions, in a fixed order, so their answers are given per
  iteration: whether the upload path exists, what \<open>ffprobe\<close> reports (an error or
  \<open>metadata.format.duration\<close>, taken to be a finite number), and whether the
  \<open>ffmpeg\<close> run ends with an error. The theorems hold for every such world.
\<close>

record world =
  w_pathExists :: "nat \<Rightarrow> bool"
  w_ffprobe :: "nat \<Rightarrow> string + rat"
  w_ffmpeg :: "nat \<Rightarrow> string option"

record upfile =
  originalName :: string
  uploadPath :: string

record processed =
  p_originalName :: string
  p_fileName :: string
  p_url :: string

record exec_call =
  c_input :: string
  c_args :: trim_args
  c_outputPath :: string

record batch =
  b_sessionId :: string
  b_sessionDir :: string
  b_baseName :: string
  b_trimStartSeconds :: rat
  b_trimEndSeconds :: rat

definition originalExt :: "upfile \<Rightarrow> string" where
  "originalExt file = (if extname (originalName file) = [] then ''.mp4'' else extname (originalName file))"

definition outputFileName :: "string \<Rightarrow> nat \<Rightarrow> upfile \<Rightarrow> string" where
  "outputFileName baseName i file = baseName @ ''_'' @ string_of_nat (i + 1) @ originalExt file"

text \<open>
  One iteration: \<open>Skipped\<close> is \<open>continue\<close>, \<open>Failed\<close> is a rejected promise (thrown at
  the \<open>await\<close>), \<open>Done\<close> is the \<open>push\<close> at the end of the body.
\<close>

datatype step_result = Skipped | Failed string "exec_call option" | Done processed exec_call

definition process_file :: "deployment \<Rightarrow> world \<Rightarrow> batch \<Rightarrow> nat \<Rightarrow> upfile \<Rightarrow> step_result" where
  "process_file d w b i file =
     (if \<not> w_pathExists w i then Skipped
      else
        let fileName = outputFileName (b_baseName b) i file;
            outputPath = join [b_sessionDir b, fileName]
        in case w_ffprobe w i of
             Inl err \<Rightarrow> Failed err None
           | Inr videoDuration \<Rightarrow>
               (case plan (d_policy d) videoDuration (b_trimStartSeconds b) (b_trimEndSeconds b) of
                  None \<Rightarrow> Skipped
                | Some args \<Rightarrow>
                    let call = \<lparr>c_input = uploadPath file, c_args = args, c_outputPath = outputPath\<rparr>
                    in case w_ffmpeg w i of
                         Some err \<Rightarrow> Failed err (Some call)
                       | None \<Rightarrow>
                           Done \<lparr>p_originalName = originalName file, p_fileName = fileName,
                                 p_url = d_urlPrefix d @ b_sessionId b @ ''/'' @ fileName\<rparr> call))"

text \<open>
  The loop, with the index \<open>i\<close>, the list \<open>processedFiles\<close> so far and the engine runs so
  far. It ends with \<open>Inr\<close> the list when every file has been visited and with \<open>Inl\<close> the
  error message as soon as an iteration throws.
\<close>

fun process_loop ::
  "deployment \<Rightarrow> world \<Rightarrow> batch \<Rightarrow> nat \<Rightarrow> upfile list \<Rightarrow> processed list \<Rightarrow> exec_call list
     \<Rightarrow> (string + processed list) \<times> exec_call list" where
  "process_loop d w b i [] processedFiles calls = (Inr processedFiles, calls)"
| "process_loop d w b i (file # rest) processedFiles calls =
     (case process_file d w b i file of
        Skipped \<Rightarrow> process_loop d w b (i + 1) rest processedFiles calls
      | Failed err c \<Rightarrow> (Inl err, calls @ (case c of None \<Rightarrow> [] | Some x \<Rightarrow> [x]))
      | Done p c \<Rightarrow> process_loop d w b (i + 1) rest (processedFiles @ [p]) (calls @ [c]))"

subsection \<open>The request handler\<close>

text \<open>
  The fields of the request body. \<open>trimStart\<close> and \<open>trimEnd\<close> hold what \<open>parseFloat\<close>
  returns for them (\<open>None\<close> for \<open>NaN\<close>); an absent field is \<open>None\<close>. The
  fields carry the prefix \<open>req_\<close>.
\<close>

record process_request =
  req_sessionId :: "string option"
  req_files :: "upfile list option"
  req_trimStart :: "rat option"
  req_trimEnd :: "rat option"
  req_outputBaseName :: "string option"

datatype response = Ok200 string "processed list" | Err400 string | Err500 string

definition baseName_of :: "string option \<Rightarrow> string" where
  "baseName_of outputBaseName =
     (let trimmedBaseName = (case outputBaseName of None \<Rightarrow> [] | Some s \<Rightarrow> if s = [] then [] else trim s)
      in if trimmedBaseName = [] then ''trimmed'' else trimmedBaseName)"

definition batch_of :: "deployment \<Rightarrow> string \<Rightarrow> process_request \<Rightarrow> batch" where
  "batch_of d sid req =
     \<lparr>b_sessionId = sid,
      b_sessionDir = join [d_outputDir d, sid],
      b_baseName = baseName_of (req_outputBaseName req),
      b_trimStartSeconds = or_zero (req_trimStart req),
      b_trimEndSeconds = or_zero (req_trimEnd req)\<rparr>"

definition process :: "deployment \<Rightarrow> world \<Rightarrow> process_request \<Rightarrow> response \<times> exec_call list" where
  "process d w req =
     (case (req_sessionId req, req_files req) of
        (Some sid, Some fs) \<Rightarrow>
          if sid = [] \<or> fs = [] then (Err400 ''Missing required parameters'', [])
          else (case process_loop d w (batch_of d sid req) 0 fs [] [] of
                  (Inl err, calls) \<Rightarrow> (Err500 err, calls)
                | (Inr processedFiles, calls) \<Rightarrow> (Ok200 sid processedFiles, calls))
      | _ \<Rightarrow> (Err400 ''Missing required parameters'', []))"

text \<open>
  The entries of the files whose iteration reaches the \<open>push\<close>, in the order of the
  request: what a batch reports if no iteration throws.
\<close>

fun done_entries :: "deployment \<Rightarrow> world \<Rightarrow> batch \<Rightarrow> nat \<Rightarrow> upfile list \<Rightarrow> processed list" where
  "done_entries d w b i [] = []"
| "done_entries d w b i (file # rest) =
     (case process_file d w b i file of
        Done p c \<Rightarrow> p # done_entries d w b (i + 1) rest
      | _ \<Rightarrow> done_entries d w b (i + 1) rest)"


text \<open>
  A path segment that normalisation leaves alone: not empty, free of separators, and
  neither \<open>.\<close> nor \<open>..\<close>.
\<close>

definition plain_segment :: "string \<Rightarrow> bool" where
  "plain_segment s \<longleftrightarrow> s \<noteq> [] \<and> CHR ''/'' \<notin> set s \<and> s \<noteq> ''.'' \<and> s \<noteq> ''..''"

text \<open>A directory path with its separator, ready for a file name to be appended.\<close>

definition with_sep :: "string \<Rightarrow> string" where
  "with_sep dir = (if dir \<noteq> [] \<and> last dir = CHR ''/'' then dir else dir @ ''/'')"

subsection \<open>Example inputs\<close>

definition example_A :: upfile where
  "example_A = \<lparr>originalName = ''a.mov'', uploadPath = ''/tmp/uploads/u1-a.mov''\<rparr>"

definition example_B :: upfile where
  "example_B = \<lparr>originalName = ''b.mp4'', uploadPath = ''/tmp/uploads/u2-b.mp4''\<rparr>"

definition example_C :: upfile where
  "example_C = \<lparr>originalName = ''c'', uploadPath = ''/tmp/uploads/u3-c''\<rparr>"

text \<open>Ten-second videos; the engine fails, or the upload is gone, at one position.\<close>

definition world_probe_fails :: "nat \<Rightarrow> world" where
  "world_probe_fails n =
     \<lparr>w_pathExists = (\<lambda>i. True),
      w_ffprobe = (\<lambda>i. if i = n then Inl ''ffprobe exited with code 1'' else Inr 10),
      w_ffmpeg = (\<lambda>i. None)\<rparr>"


definition world_missing :: "nat \<Rightarrow> world" where
  "world_missing n =
     \<lparr>w_pathExists = (\<lambda>i. i \<noteq> n),
      w_ffprobe = (\<lambda>i. Inr 10),
      w_ffmpeg = (\<lambda>i. None)\<rparr>"

text \<open>A request for session \<open>s1\<close> that cuts one second at each end.\<close>

definition example_request :: "upfile list \<Rightarrow> string option \<Rightarrow> process_request" where
  "example_request fs name =
     \<lparr>req_sessionId = Some ''s1'', req_files = Some fs, req_trimStart = Some 1,
      req_trimEnd = Some 1, req_outputBaseName = name\<rparr>"

text \<open>A disk holding one ten-byte output file.\<close>

definition example_disk :: "string \<Rightarrow> string option" where
  "example_disk p = (if p = ''/tmp/output/s1/trimmed_1.mp4'' then Some ''0123456789'' else None)"



section \<open>Facts about the rounding function\<close>

text \<open>
  \<open>pow2\<close> is the integer power of two, \<open>floor_log2\<close> is the binary exponent of a positive
  rational, and rounding to nearest, ties to even, is monotone. Hence \<open>fl\<close> is monotone,
  it fixes zero, every value it returns is a multiple of the least subnormal
  \<open>2^-1074\<close>, and so the difference of two distinct doubles never rounds to zero.
\<close>

lemma pow2_powi: "pow2 k = 2 powi k"
  by (simp add: pow2_def power_int_def power_one_over inverse_eq_divide)

lemma pow2_pos: "0 < pow2 k"
  by (simp add: pow2_powi)

lemma pow2_add: "pow2 (a + b) = pow2 a * pow2 b"
  by (simp add: pow2_powi power_int_add)

lemma pow2_mono: "a \<le> b \<Longrightarrow> pow2 a \<le> pow2 b"
  by (simp add: pow2_powi power_int_increasing)

lemma pow2_of_nat: "0 \<le> k \<Longrightarrow> pow2 k = of_int (2 ^ nat k)"
  by (simp add: pow2_def)

lemma floor_log2_bounds:
  assumes "0 < x"
  shows "pow2 (floor_log2 x) \<le> x \<and> x < pow2 (floor_log2 x + 1)"
proof -
  obtain p q where pq: "quotient_of x = (p, q)" by (cases "quotient_of x")
  have q: "0 < q" using pq by (rule quotient_of_denom_pos)
  have x: "x = of_int p / of_int q" using pq by (rule quotient_of_div)
  have p: "0 < p" using assms q x by (simp add: zero_less_divide_iff)
  let ?bp = "bitlen p" and ?bq = "bitlen q"
  have bp: "1 \<le> ?bp" and bq: "1 \<le> ?bq"
    using p q bitlen_eq_zero_iff [of p] bitlen_eq_zero_iff [of q] bitlen_nonneg [of p] bitlen_nonneg [of q]
    by linarith+
  have "2 ^ nat (?bp - 1) \<le> p" "p < 2 ^ nat ?bp" "2 ^ nat (?bq - 1) \<le> q" "q < 2 ^ nat ?bq"
    using bitlen_bounds [OF p] bitlen_bounds [OF q] by simp_all
  then have "(of_int (2 ^ nat (?bp - 1)) :: rat) \<le> of_int p" "(of_int p :: rat) < of_int (2 ^ nat ?bp)"
    "(of_int (2 ^ nat (?bq - 1)) :: rat) \<le> of_int q" "(of_int q :: rat) < of_int (2 ^ nat ?bq)"
    by (simp_all only: of_int_le_iff of_int_less_iff)
  then have b: "pow2 (?bp - 1) \<le> of_int p" "of_int p < pow2 ?bp"
    "pow2 (?bq - 1) \<le> of_int q" "of_int q < pow2 ?bq"
    using bp bq by (simp_all add: pow2_of_nat)
  let ?k = "?bp - ?bq"
  have qpos: "(0::rat) < of_int q" using q by simp
  have up: "x < pow2 (?k + 1)"
  proof -
    have "of_int p < pow2 ?bp" by (rule b)
    also have "pow2 ?bp = pow2 (?k + 1) * pow2 (?bq - 1)"
      by (simp add: pow2_add [symmetric])
    also have "\<dots> \<le> pow2 (?k + 1) * of_int q"
      using b(3) pow2_pos [of "?k + 1"] by (simp add: mult_left_mono)
    finally show ?thesis using qpos by (simp add: x pos_divide_less_eq)
  qed
  have lo: "pow2 (?k - 1) < x"
  proof -
    have "pow2 (?k - 1) * of_int q < pow2 (?k - 1) * pow2 ?bq"
      using b(4) pow2_pos [of "?k - 1"] by (simp add: mult_strict_left_mono)
    also have "\<dots> = pow2 (?bp - 1)" by (simp add: pow2_add [symmetric])
    also have "\<dots> \<le> of_int p" by (rule b)
    finally show ?thesis using qpos by (simp add: x pos_less_divide_eq)
  qed
  show ?thesis
  proof (cases "pow2 ?k \<le> x")
    case True
    then have "floor_log2 x = ?k" by (simp add: floor_log2_def pq)
    with True up show ?thesis by simp
  next
    case False
    then have "floor_log2 x = ?k - 1" by (simp add: floor_log2_def pq)
    with False lo show ?thesis by simp
  qed
qed

lemma floor_log2_mono:
  assumes "0 < x" and "x \<le> y"
  shows "floor_log2 x \<le> floor_log2 y"
proof (rule ccontr)
  assume "\<not> floor_log2 x \<le> floor_log2 y"
  then have "floor_log2 y + 1 \<le> floor_log2 x" by simp
  then have "pow2 (floor_log2 y + 1) \<le> pow2 (floor_log2 x)" by (rule pow2_mono)
  moreover have "y < pow2 (floor_log2 y + 1)" using floor_log2_bounds [of y] assms by simp
  moreover have "pow2 (floor_log2 x) \<le> x" using floor_log2_bounds [OF assms(1)] by simp
  ultimately show False using assms(2) by simp
qed

lemma round_half_even_of_int: "round_half_even (of_int n) = n"
  by (simp add: round_half_even_def)

lemma round_half_even_range:
  "round_half_even y = \<lfloor>y\<rfloor> \<or> round_half_even y = \<lfloor>y\<rfloor> + 1"
  by (simp add: round_half_even_def Let_def)

lemma round_half_even_mono:
  assumes "y \<le> z"
  shows "round_half_even y \<le> round_half_even z"
proof (cases "\<lfloor>y\<rfloor> = \<lfloor>z\<rfloor>")
  case True
  with assms have "y - of_int \<lfloor>y\<rfloor> \<le> z - of_int \<lfloor>z\<rfloor>" by simp
  with True show ?thesis by (auto simp: round_half_even_def Let_def)
next
  case False
  with assms have "\<lfloor>y\<rfloor> + 1 \<le> \<lfloor>z\<rfloor>" using floor_mono [of y z] by simp
  with round_half_even_range [of y] round_half_even_range [of z] show ?thesis by auto
qed

lemma fl_pos_eq:
  "0 < x \<Longrightarrow> fl x = of_int (round_half_even (x / pow2 (ulp_exp x))) * pow2 (ulp_exp x)"
  by (simp add: fl_def ulp_exp_def Let_def)

lemma fl_minus: "fl (- x) = - fl x"
  by (simp add: fl_def Let_def)

lemma fl_zero: "fl 0 = 0"
  by (simp add: fl_def)

lemma fl_nonneg:
  assumes "0 \<le> x"
  shows "0 \<le> fl x"
proof (cases "x = 0")
  case True
  then show ?thesis by (simp add: fl_zero)
next
  case False
  with assms have x: "0 < x" by simp
  have "0 \<le> x / pow2 (ulp_exp x)" using x pow2_pos [of "ulp_exp x"] by simp
  then have "round_half_even 0 \<le> round_half_even (x / pow2 (ulp_exp x))"
    by (rule round_half_even_mono)
  then have "0 \<le> round_half_even (x / pow2 (ulp_exp x))"
    using round_half_even_of_int [of 0] by simp
  then show ?thesis using pow2_pos [of "ulp_exp x"] by (simp add: fl_pos_eq [OF x])
qed


lemma ulp_exp_mono: "0 < x \<Longrightarrow> x \<le> y \<Longrightarrow> ulp_exp x \<le> ulp_exp y"
  using floor_log2_mono [of x y] by (simp add: ulp_exp_def)

lemma fl_le_pow2:
  assumes "0 < x"
  shows "fl x \<le> pow2 (floor_log2 x + 1)"
proof -
  let ?e = "ulp_exp x"
  let ?t = "floor_log2 x + 1 - ?e"
  have xlt: "x < pow2 (floor_log2 x + 1)" using floor_log2_bounds [OF assms] by simp
  have split: "pow2 (floor_log2 x + 1) = pow2 ?t * pow2 ?e" by (simp add: pow2_add [symmetric])
  have q: "x / pow2 ?e < pow2 ?t"
    using xlt pow2_pos [of ?e] by (simp add: split pos_divide_less_eq)
  show ?thesis
  proof (cases "0 \<le> ?t")
    case True
    then have "pow2 ?t = of_int (2 ^ nat ?t)" by (rule pow2_of_nat)
    with q have "round_half_even (x / pow2 ?e) \<le> round_half_even (of_int (2 ^ nat ?t))"
      by (intro round_half_even_mono) simp
    then have "round_half_even (x / pow2 ?e) \<le> 2 ^ nat ?t"
      by (simp only: round_half_even_of_int)
    then have "(of_int (round_half_even (x / pow2 ?e)) :: rat) \<le> of_int (2 ^ nat ?t)"
      by (simp only: of_int_le_iff)
    then have "of_int (round_half_even (x / pow2 ?e)) \<le> pow2 ?t"
      using True by (simp only: pow2_of_nat)
    then have "of_int (round_half_even (x / pow2 ?e)) * pow2 ?e \<le> pow2 ?t * pow2 ?e"
      using pow2_pos [of ?e] by (simp add: mult_right_mono)
    then show ?thesis by (simp only: fl_pos_eq [OF assms] split)
  next
    case False
    then have "?t \<le> - 1" by simp
    then have "pow2 ?t \<le> pow2 (- 1)" by (rule pow2_mono)
    then have "pow2 ?t \<le> 1 / 2" by (simp add: pow2_def)
    with q have lt: "x / pow2 ?e < 1 / 2" by (rule less_le_trans)
    have ge: "0 \<le> x / pow2 ?e" using assms pow2_pos [of ?e] by simp
    have "(1 / 2 :: rat) < 1" by simp
    with lt have lt1: "x / pow2 ?e < 1" by (rule less_trans)
    have "\<lfloor>x / pow2 ?e\<rfloor> = 0" using lt1 ge by (simp add: floor_eq_iff)
    with lt have "round_half_even (x / pow2 ?e) = 0"
      by (simp add: round_half_even_def Let_def)
    then have "fl x = 0" by (simp add: fl_pos_eq [OF assms])
    then show ?thesis using pow2_pos [of "floor_log2 x + 1"] by simp
  qed
qed

lemma fl_ge_pow2:
  assumes "0 < y" and "- 1074 \<le> floor_log2 y - 52"
  shows "pow2 (floor_log2 y) \<le> fl y"
proof -
  have e: "ulp_exp y = floor_log2 y - 52" using assms(2) by (simp add: ulp_exp_def)
  let ?e = "floor_log2 y - 52"
  have split: "pow2 (floor_log2 y) = pow2 52 * pow2 ?e" by (simp add: pow2_add [symmetric])
  have "pow2 (floor_log2 y) \<le> y" using floor_log2_bounds [OF assms(1)] by simp
  then have "pow2 52 \<le> y / pow2 ?e"
    using pow2_pos [of ?e] by (simp add: split pos_le_divide_eq)
  moreover have p52: "pow2 52 = of_int (2 ^ nat 52)" by (rule pow2_of_nat) simp
  ultimately have "round_half_even (of_int (2 ^ nat 52)) \<le> round_half_even (y / pow2 ?e)"
    by (intro round_half_even_mono) simp
  then have "2 ^ nat 52 \<le> round_half_even (y / pow2 ?e)"
    by (simp only: round_half_even_of_int)
  then have "(of_int (2 ^ nat 52) :: rat) \<le> of_int (round_half_even (y / pow2 ?e))"
    by (simp only: of_int_le_iff)
  then have "pow2 52 \<le> of_int (round_half_even (y / pow2 ?e))"
    by (simp only: p52)
  then have "pow2 52 * pow2 ?e \<le> of_int (round_half_even (y / pow2 ?e)) * pow2 ?e"
    using pow2_pos [of ?e] by (simp add: mult_right_mono)
  then show ?thesis by (simp only: fl_pos_eq [OF assms(1)] e split)
qed

lemma fl_mono_pos:
  assumes "0 < x" and "x \<le> y"
  shows "fl x \<le> fl y"
proof -
  have y: "0 < y" using assms by simp
  have le: "ulp_exp x \<le> ulp_exp y" using assms by (rule ulp_exp_mono)
  show ?thesis
  proof (cases "ulp_exp x = ulp_exp y")
    case True
    let ?e = "ulp_exp y"
    have "x / pow2 ?e \<le> y / pow2 ?e"
      using assms(2) pow2_pos [of ?e] by (simp add: divide_right_mono)
    then have "round_half_even (x / pow2 ?e) \<le> round_half_even (y / pow2 ?e)"
      by (rule round_half_even_mono)
    then have "(of_int (round_half_even (x / pow2 ?e)) :: rat) \<le> of_int (round_half_even (y / pow2 ?e))"
      by (simp only: of_int_le_iff)
    then have "of_int (round_half_even (x / pow2 ?e)) * pow2 ?e
        \<le> of_int (round_half_even (y / pow2 ?e)) * pow2 ?e"
      using pow2_pos [of ?e] by (simp add: mult_right_mono)
    then show ?thesis using True by (simp only: fl_pos_eq [OF assms(1)] fl_pos_eq [OF y])
  next
    case False
    with le have lt: "ulp_exp x < ulp_exp y" by simp
    have "- 1074 \<le> ulp_exp x" by (simp add: ulp_exp_def)
    with lt have ey: "ulp_exp y = floor_log2 y - 52" and big: "- 1074 \<le> floor_log2 y - 52"
      by (simp_all add: ulp_exp_def max_def split: if_splits)
    have "floor_log2 x - 52 \<le> ulp_exp x" by (simp add: ulp_exp_def)
    with lt ey have "floor_log2 x + 1 \<le> floor_log2 y" by simp
    then have "pow2 (floor_log2 x + 1) \<le> pow2 (floor_log2 y)" by (rule pow2_mono)
    with fl_le_pow2 [OF assms(1)] fl_ge_pow2 [OF y big] show ?thesis by simp
  qed
qed

lemma fl_mono:
  assumes "x \<le> y"
  shows "fl x \<le> fl y"
proof -
  consider "0 < x" | "x \<le> 0" "0 \<le> y" | "y < 0" by linarith
  then show ?thesis
  proof cases
    case 1
    then show ?thesis using assms by (rule fl_mono_pos)
  next
    case 2
    have "0 \<le> fl (- x)" using 2(1) by (intro fl_nonneg) simp
    then have "fl x \<le> 0" by (simp add: fl_minus)
    moreover have "0 \<le> fl y" using 2(2) by (rule fl_nonneg)
    ultimately show ?thesis by simp
  next
    case 3
    then have "0 < - y" and "- y \<le> - x" using assms by simp_all
    then have "fl (- y) \<le> fl (- x)" by (rule fl_mono_pos)
    then show ?thesis by (simp add: fl_minus)
  qed
qed

lemma fl_pos:
  assumes "pow2 (- 1074) \<le> x"
  shows "0 < fl x"
proof -
  have x: "0 < x" using assms pow2_pos [of "- 1074"] by simp
  let ?e = "ulp_exp x"
  have "1 \<le> x / pow2 ?e"
  proof (cases "- 1074 \<le> floor_log2 x - 52")
    case True
    then have e: "?e = floor_log2 x - 52" by (simp add: ulp_exp_def)
    have split: "pow2 (floor_log2 x) = pow2 52 * pow2 ?e" by (simp add: e pow2_add [symmetric])
    have "pow2 (floor_log2 x) \<le> x" using floor_log2_bounds [OF x] by simp
    then have "pow2 52 \<le> x / pow2 ?e" using pow2_pos [of ?e] by (simp add: split pos_le_divide_eq)
    moreover have "1 \<le> pow2 52" using pow2_mono [of 0 52] by (simp add: pow2_def)
    ultimately show ?thesis by simp
  next
    case False
    then have e: "?e = - 1074" by (simp add: ulp_exp_def)
    show ?thesis using assms pow2_pos [of "- 1074"] by (simp add: e pos_le_divide_eq)
  qed
  then have "round_half_even (of_int 1) \<le> round_half_even (x / pow2 ?e)"
    by (intro round_half_even_mono) simp
  then have "1 \<le> round_half_even (x / pow2 ?e)" by (simp only: round_half_even_of_int)
  then have "(0::rat) < of_int (round_half_even (x / pow2 ?e))" by simp
  then show ?thesis using pow2_pos [of ?e] by (simp add: fl_pos_eq [OF x])
qed

lemma fl_on_grid: "\<exists>n::int. fl v = of_int n * pow2 (- 1074)"
proof (cases "v = 0")
  case True
  then have "fl v = of_int 0 * pow2 (- 1074)" by (simp add: fl_zero)
  then show ?thesis by blast
next
  case False
  let ?e = "ulp_exp \<bar>v\<bar>"
  let ?m = "round_half_even (\<bar>v\<bar> / pow2 ?e)"
  have e: "0 \<le> ?e + 1074" by (simp add: ulp_exp_def)
  have "pow2 ?e = pow2 (?e + 1074) * pow2 (- 1074)" by (simp add: pow2_add [symmetric])
  also have "pow2 (?e + 1074) = of_int (2 ^ nat (?e + 1074))" using e by (rule pow2_of_nat)
  finally have pe: "pow2 ?e = of_int (2 ^ nat (?e + 1074)) * pow2 (- 1074)" .
  have "\<exists>s::int. sgn v = of_int s"
  proof (cases "0 < v")
    case True
    then have "sgn v = of_int 1" by simp
    then show ?thesis by blast
  next
    case neg: False
    with False have "sgn v = of_int (- 1)" by (simp add: sgn_if)
    then show ?thesis by blast
  qed
  then obtain s :: int where s: "sgn v = of_int s" by blast
  have "fl v = sgn v * of_int ?m * pow2 ?e"
    using False by (simp add: fl_def ulp_exp_def Let_def)
  also have "\<dots> = of_int (s * ?m * 2 ^ nat (?e + 1074)) * pow2 (- 1074)"
    by (simp add: s pe)
  finally show ?thesis by blast
qed

lemma doubles_apart:
  assumes "fl b < fl a"
  shows "pow2 (- 1074) \<le> fl a - fl b"
proof -
  from fl_on_grid [of a] obtain n where n: "fl a = of_int n * pow2 (- 1074)" by blast
  from fl_on_grid [of b] obtain m where m: "fl b = of_int m * pow2 (- 1074)" by blast
  have d: "fl a - fl b = of_int (n - m) * pow2 (- 1074)" by (simp add: n m algebra_simps)
  have "0 < of_int (n - m) * pow2 (- 1074)" using assms d by simp
  then have "(0::rat) < of_int (n - m)" using pow2_pos [of "- 1074"] by (simp add: zero_less_mult_iff)
  then have "1 \<le> n - m" by simp
  then have "(1::rat) \<le> of_int (n - m)" by (simp only: of_int_1_le_iff)
  then have "1 * pow2 (- 1074) \<le> of_int (n - m) * pow2 (- 1074)"
    using pow2_pos [of "- 1074"] by (intro mult_right_mono) simp_all
  then show ?thesis by (simp add: d)
qed

lemma js_sub_le:
  assumes "representable hi" and "x - y \<le> hi"
  shows "js_sub x y \<le> hi"
proof -
  have "fl (x - y) \<le> fl hi" using assms(2) by (rule fl_mono)
  then show ?thesis using assms(1) by (simp add: js_sub_def representable_def)
qed

lemma js_sub_ge:
  assumes "representable lo" and "lo \<le> x - y"
  shows "lo \<le> js_sub x y"
proof -
  have "fl lo \<le> fl (x - y)" using assms(2) by (rule fl_mono)
  then show ?thesis using assms(1) by (simp add: js_sub_def representable_def)
qed

lemma js_sub_pos:
  assumes "representable b" and "b < fl a"
  shows "0 < js_sub (fl a) b"
proof -
  have b: "fl b = b" using assms(1) by (simp add: representable_def)
  have "fl b < fl a" using assms(2) by (simp add: b)
  then have "pow2 (- 1074) \<le> fl a - fl b" by (rule doubles_apart)
  then have "0 < fl (fl a - fl b)" by (rule fl_pos)
  then show ?thesis by (simp add: js_sub_def b)
qed

lemma representable_0: "representable 0"
  by (simp add: representable_def fl_zero pow2_def)

section \<open>Trim planning\<close>

text \<open>
  The rounding at work on familiar values: the doubles written \<open>0.1\<close>, \<open>0.3\<close> and
  \<open>0.7\<close>; \<open>1 - 0.3\<close> is a tie and rounds to \<open>0.7\<close>, while \<open>1 - 0.7\<close> is exact and
  is the double above \<open>0.3\<close>, printed \<open>0.30000000000000004\<close>.
\<close>

lemma fl_examples:
  "fl (1 / 10) = 3602879701896397 / 2 ^ 55
   \<and> fl (3 / 10) = 5404319552844595 / 2 ^ 54
   \<and> fl (7 / 10) = 6305039478318694 / 2 ^ 53
   \<and> js_sub 1 (fl (3 / 10)) = fl (7 / 10)
   \<and> js_sub 1 (fl (7 / 10)) = fl (3 / 10) + 1 / 2 ^ 54
   \<and> js_sub 1 (fl (7 / 10)) = 1 - fl (7 / 10)"
  by code_simp

lemma representable_9: "representable (10 - 1)"
  unfolding representable_def
proof
  show "fl (10 - 1) = 10 - 1" by code_simp
  show "\<bar>10 - 1\<bar> < pow2 1024" by (simp add: pow2_def)
qed

lemma representable_8: "representable (10 - 1 - 1)"
  unfolding representable_def
proof
  show "fl (10 - 1 - 1) = 10 - 1 - 1" by code_simp
  show "\<bar>10 - 1 - 1\<bar> < pow2 1024" by (simp add: pow2_def)
qed

lemma fl_two_fifths: "fl (2 / 5) = 3602879701896397 / 2 ^ 53"
  by code_simp

lemma fl_seven_tenths: "fl (7 / 10) = 6305039478318694 / 2 ^ 53"
  by code_simp

lemma representable_two_fifths: "representable (fl (2 / 5))"
  unfolding representable_def
proof
  show "fl (fl (2 / 5)) = fl (2 / 5)" by code_simp
  show "\<bar>fl (2 / 5)\<bar> < pow2 1024" by (simp add: fl_two_fifths pow2_def)
qed

lemma representable_seven_tenths: "representable (fl (7 / 10))"
  unfolding representable_def
proof
  show "fl (fl (7 / 10)) = fl (7 / 10)" by code_simp
  show "\<bar>fl (7 / 10)\<bar> < pow2 1024" by (simp add: fl_seven_tenths pow2_def)
qed

lemma representable_1: "representable 1"
  unfolding representable_def
proof
  show "fl 1 = 1" by code_simp
  show "\<bar>1\<bar> < pow2 1024" by (simp add: pow2_def)
qed

lemma representable_10: "representable 10"
  unfolding representable_def
proof
  show "fl 10 = 10" by code_simp
  show "\<bar>10\<bar> < pow2 1024" by (simp add: pow2_def)
qed

text \<open>
  Claim C2, as stated: for every duration \<open>D\<close> and cuts \<open>S, E \<ge> 0\<close> the planning step
  rejects the file exactly when \<open>D - E \<le> S\<close> and otherwise produces the window
  \<open>[S, D - E)\<close>. It fails for the listings that test the new duration: for a one-second
  video with \<open>S = 0.3\<close> and \<open>E = 0.7\<close> (the doubles nearest to them), \<open>D - E\<close> is
  greater than \<open>S\<close>, both exactly and as computed, yet \<open>1 - 0.3\<close> rounds to \<open>0.7\<close>,
  the new duration is \<open>0\<close> and the file is skipped as too short. The listing that tests
  the end time accepts the same input.
\<close>

theorem plan_duration_rejects_feasible_trim:
  "plan_duration 1 (fl (3 / 10)) (fl (7 / 10)) = None
   \<and> \<not> (1 - fl (7 / 10) \<le> fl (3 / 10))
   \<and> \<not> (js_sub 1 (fl (7 / 10)) \<le> fl (3 / 10))
   \<and> plan_end_time 1 (fl (3 / 10)) (fl (7 / 10)) = Some (SeekTo (fl (3 / 10)) (1 - fl (7 / 10)))"
  by code_simp

text \<open>
  Claim C2, amended: for every duration \<open>D\<close> and all cuts \<open>S\<close>, \<open>E\<close> that are doubles
  (as every number of the handler is), in every listing:
  \<^item> if \<open>D - E \<le> S\<close>, the planning step rejects the file;
  \<^item> the listing that tests the end time accepts the file whenever some double lies
    strictly above \<open>S\<close> and at most at \<open>D - E\<close>, and passes the window from \<open>S\<close> to the
    end time it computes, \<open>D - E\<close> rounded to a double; that end time is at least every
    double below \<open>D - E\<close> and at most every double above it;
  \<^item> the listings that test the duration accept the file whenever some double lies
    strictly above \<open>E\<close> and at most at \<open>D - S\<close>, and pass the start \<open>S\<close> and the
    duration they compute, \<open>(D - S) - E\<close> in double arithmetic, which is positive;
  \<^item> whenever \<open>D - E > S\<close> and the differences \<open>D - E\<close>, \<open>D - S\<close> and \<open>D - S - E\<close> are
    computed without rounding, every listing hands the executor arguments that select
    the window \<open>[S, D - E)\<close>.

  A feasible trim is rejected only when no double separates the cut from the rest of the
  video, as in the example above. The instance below takes a ten-second video with both
  cuts \<open>0.4\<close>, where every subtraction rounds.
\<close>

theorem plan_window:
  assumes "representable S" and "representable E"
  shows "(D - E \<le> S \<longrightarrow> plan p D S E = None)
       \<and> (\<forall>lo. representable lo \<and> S < lo \<and> lo \<le> D - E \<longrightarrow>
            plan EndTime D S E = Some (SeekTo S (js_sub D E)) \<and> lo \<le> js_sub D E)
       \<and> (\<forall>hi. representable hi \<and> D - E \<le> hi \<longrightarrow> js_sub D E \<le> hi)
       \<and> (\<forall>lo. representable lo \<and> E < lo \<and> lo \<le> D - S \<longrightarrow>
            plan Duration D S E = Some (SeekDuration S (js_sub (js_sub D S) E))
            \<and> 0 < js_sub (js_sub D S) E)
       \<and> (representable (D - E) \<and> representable (D - S) \<and> representable (D - S - E)
            \<and> \<not> D - E \<le> S \<longrightarrow>
              (\<exists>args. plan p D S E = Some args \<and> window args = (S, D - E)))"
proof (intro conjI allI impI)
  assume le: "D - E \<le> S"
  have "js_sub D E \<le> S" using assms(1) le by (rule js_sub_le)
  then have a: "plan_end_time D S E = None" by (simp add: plan_end_time_def)
  have "D - S \<le> E" using le by simp
  with assms(2) have "js_sub D S \<le> E" by (rule js_sub_le)
  then have "js_sub D S - E \<le> 0" by simp
  with representable_0 have "js_sub (js_sub D S) E \<le> 0" by (rule js_sub_le)
  then have b: "plan_duration D S E = None" by (simp add: plan_duration_def)
  show "plan p D S E = None" using a b by (cases p) (simp_all add: plan_def)
next
  fix lo
  assume h: "representable lo \<and> S < lo \<and> lo \<le> D - E"
  then show b: "lo \<le> js_sub D E" by (intro js_sub_ge) simp_all
  with h have "\<not> js_sub D E \<le> S" by simp
  then show "plan EndTime D S E = Some (SeekTo S (js_sub D E))"
    by (simp add: plan_def plan_end_time_def)
next
  fix hi
  assume "representable hi \<and> D - E \<le> hi"
  then show "js_sub D E \<le> hi" by (intro js_sub_le) simp_all
next
  fix lo
  assume h: "representable lo \<and> E < lo \<and> lo \<le> D - S"
  then have "lo \<le> js_sub D S" by (intro js_sub_ge) simp_all
  with h have "E < fl (D - S)" by (simp add: js_sub_def)
  with assms(2) have "0 < js_sub (fl (D - S)) E" by (rule js_sub_pos)
  then show pos: "0 < js_sub (js_sub D S) E" by (simp add: js_sub_def)
  then show "plan Duration D S E = Some (SeekDuration S (js_sub (js_sub D S) E))"
    by (simp add: plan_def plan_duration_def)
next
  assume r: "representable (D - E) \<and> representable (D - S) \<and> representable (D - S - E)
    \<and> \<not> D - E \<le> S"
  have e1: "js_sub D E = D - E"
    using r by (simp add: js_sub_def representable_def)
  have e2: "js_sub (js_sub D S) E = D - S - E"
    using r by (simp add: js_sub_def representable_def)
  show "\<exists>args. plan p D S E = Some args \<and> window args = (S, D - E)"
    using r by (cases p) (auto simp: plan_def plan_end_time_def plan_duration_def e1 e2)
qed

theorem plan_window_witness:
  "plan EndTime 10 (fl (2 / 5)) (fl (2 / 5)) = Some (SeekTo (fl (2 / 5)) (js_sub 10 (fl (2 / 5))))
   \<and> 9 \<le> js_sub 10 (fl (2 / 5)) \<and> js_sub 10 (fl (2 / 5)) \<le> 10
   \<and> plan Duration 10 (fl (2 / 5)) (fl (2 / 5))
       = Some (SeekDuration (fl (2 / 5)) (js_sub (js_sub 10 (fl (2 / 5))) (fl (2 / 5))))
   \<and> 0 < js_sub (js_sub 10 (fl (2 / 5))) (fl (2 / 5))
   \<and> plan Duration 1 (fl (7 / 10)) (fl (7 / 10)) = None
   \<and> (\<exists>args. plan Duration 10 1 1 = Some args \<and> window args = (1, 10 - 1))"
proof -
  have r9: "representable 9" using representable_9 by simp
  have h1: "representable 10 \<and> 10 - fl (2 / 5) \<le> 10"
    using representable_10 by (simp add: fl_two_fifths)
  have h2: "representable 9 \<and> fl (2 / 5) < 9 \<and> 9 \<le> 10 - fl (2 / 5)"
    using r9 by (simp add: fl_two_fifths)
  have h3: "1 - fl (7 / 10) \<le> fl (7 / 10)"
    by (simp add: fl_seven_tenths)
  have h4: "representable (10 - 1) \<and> representable (10 - 1) \<and> representable (10 - 1 - 1)
      \<and> \<not> (10::rat) - 1 \<le> 1"
    using representable_9 representable_8 by simp
  note a = plan_window [OF representable_two_fifths representable_two_fifths, of 10]
  note b = plan_window [OF representable_seven_tenths representable_seven_tenths, of 1 Duration]
  note c = plan_window [OF representable_1 representable_1, of 10 Duration]
  from a [THEN conjunct2, THEN conjunct1, THEN spec, THEN mp, OF h2]
  have e: "plan EndTime 10 (fl (2 / 5)) (fl (2 / 5)) = Some (SeekTo (fl (2 / 5)) (js_sub 10 (fl (2 / 5))))
      \<and> 9 \<le> js_sub 10 (fl (2 / 5))" .
  from a [THEN conjunct2, THEN conjunct2, THEN conjunct1, THEN spec, THEN mp, OF h1]
  have u: "js_sub 10 (fl (2 / 5)) \<le> 10" .
  from a [THEN conjunct2, THEN conjunct2, THEN conjunct2, THEN conjunct1, THEN spec, THEN mp, OF h2]
  have d: "plan Duration 10 (fl (2 / 5)) (fl (2 / 5))
       = Some (SeekDuration (fl (2 / 5)) (js_sub (js_sub 10 (fl (2 / 5))) (fl (2 / 5))))
      \<and> 0 < js_sub (js_sub 10 (fl (2 / 5))) (fl (2 / 5))" .
  from b [THEN conjunct1, THEN mp, OF h3]
  have n: "plan Duration 1 (fl (7 / 10)) (fl (7 / 10)) = None" .
  from c [THEN conjunct2, THEN conjunct2, THEN conjunct2, THEN conjunct2, THEN mp, OF h4]
  have x: "\<exists>args. plan Duration 10 1 1 = Some args \<and> window args = (1, 10 - 1)" .
  from e u d n x show ?thesis by blast
qed




section \<open>Facts about the string and path functions\<close>



lemma regex_test_sublist: "regex_test alts s \<longleftrightarrow> (\<exists>a\<in>set alts. sublist a s)"
  by (induction s) (auto simp: list_ex_iff sublist_Cons_right)

lemma set_last_component: "set (last_component p) \<subseteq> set p"
  unfolding last_component_def
  using set_takeWhileD set_dropWhileD by fastforce

lemma extname_no_dot: "CHR ''.'' \<notin> set p \<Longrightarrow> extname p = []"
  using set_last_component [of p] by (auto simp: extname_def Let_def)

lemma extname_stem_ext:
  assumes "stem \<noteq> []" and "last stem \<noteq> CHR ''/''"
    and "e \<noteq> []" and "CHR ''/'' \<notin> set e" and "CHR ''.'' \<notin> set e"
  shows "extname (stem @ ''.'' @ e) = ''.'' @ e"
proof -
  define t where "t = rev (takeWhile (\<lambda>c. c \<noteq> CHR ''/'') (rev stem))"
  have t_ne: "t \<noteq> []"
    using assms(1,2) by (cases stem rule: rev_cases) (auto simp: t_def)
  have hd_e: "hd (rev e) \<noteq> CHR ''/''"
    using assms(3,4) by (cases e rule: rev_cases) auto
  have "dropWhile (\<lambda>c. c = CHR ''/'') (rev e @ CHR ''.'' # rev stem) = rev e @ CHR ''.'' # rev stem"
    using assms(3) hd_e by (cases "rev e") auto
  moreover have "takeWhile (\<lambda>c. c \<noteq> CHR ''/'') (rev e @ CHR ''.'' # rev stem)
      = rev e @ CHR ''.'' # takeWhile (\<lambda>c. c \<noteq> CHR ''/'') (rev stem)"
    using assms(4) by (subst takeWhile_append2) auto
  ultimately have base: "last_component (stem @ ''.'' @ e) = t @ CHR ''.'' # e"
    by (simp add: last_component_def t_def)
  have ext: "rev (takeWhile (\<lambda>c. c \<noteq> CHR ''.'') (rev (t @ CHR ''.'' # e))) = e"
    using assms(5) by (simp, subst takeWhile_append2) auto
  have len: "Suc (length e) \<noteq> length (t @ CHR ''.'' # e)"
    using t_ne by simp
  have nd: "t @ CHR ''.'' # e \<noteq> ''..''"
  proof
    assume "t @ CHR ''.'' # e = ''..''"
    then have "length (t @ CHR ''.'' # e) = 2" by simp
    with t_ne assms(3) show False by (cases t; cases e) auto
  qed
  show ?thesis
    unfolding extname_def Let_def base ext using len nd by simp
qed

section \<open>Facts about the batch loop\<close>

lemma process_loop_result:
  "(\<exists>e. fst (process_loop d w b i fs acc calls) = Inl e)
   \<or> fst (process_loop d w b i fs acc calls) = Inr (acc @ done_entries d w b i fs)"
proof (induction fs arbitrary: i acc calls)
  case Nil
  then show ?case by simp
next
  case (Cons f fs)
  show ?case
  proof (cases "process_file d w b i f")
    case Skipped
    with Cons [of "i + 1" acc calls] show ?thesis by simp
  next
    case (Failed e c)
    then show ?thesis by simp
  next
    case (Done p c)
    with Cons [of "i + 1" "acc @ [p]" "calls @ [c]"] show ?thesis by simp
  qed
qed






lemma process_file_Done:
  "process_file d w b i f = Done p c \<Longrightarrow>
     p_originalName p = originalName f
     \<and> p_fileName p = outputFileName (b_baseName b) i f
     \<and> c_outputPath c = join [b_sessionDir b, outputFileName (b_baseName b) i f]"
  by (auto simp: process_file_def Let_def split: if_splits sum.splits option.splits)

lemma process_file_Failed_call:
  "process_file d w b i f = Failed e (Some c) \<Longrightarrow>
     c_outputPath c = join [b_sessionDir b, outputFileName (b_baseName b) i f]"
  by (auto simp: process_file_def Let_def split: if_splits sum.splits option.splits)

lemma done_entries_named:
  "p \<in> set (done_entries d w b i fs) \<Longrightarrow>
     \<exists>j<length fs. p_originalName p = originalName (fs ! j)
        \<and> p_fileName p = outputFileName (b_baseName b) (i + j) (fs ! j)"
proof (induction fs arbitrary: i)
  case Nil
  then show ?case by simp
next
  case (Cons f fs)
  from Cons.prems consider
    (here) c where "process_file d w b i f = Done p c"
    | (later) "p \<in> set (done_entries d w b (i + 1) fs)"
    by (cases "process_file d w b i f") auto
  then show ?case
  proof cases
    case here
    from process_file_Done [OF here] show ?thesis by (intro exI [of _ 0]) simp
  next
    case later
    from Cons.IH [OF later] obtain j where "j < length fs"
      "p_originalName p = originalName (fs ! j)"
      "p_fileName p = outputFileName (b_baseName b) (i + 1 + j) (fs ! j)" by blast
    then show ?thesis by (intro exI [of _ "Suc j"]) simp
  qed
qed

lemma process_loop_calls:
  "c \<in> set (snd (process_loop d w b i fs acc calls)) \<Longrightarrow>
     c \<in> set calls
     \<or> (\<exists>j<length fs. c_outputPath c = join [b_sessionDir b, outputFileName (b_baseName b) (i + j) (fs ! j)])"
proof (induction fs arbitrary: i acc calls)
  case Nil
  then show ?case by simp
next
  case (Cons f fs)
  show ?case
  proof (cases "process_file d w b i f")
    case Skipped
    with Cons.prems have "c \<in> set (snd (process_loop d w b (i + 1) fs acc calls))" by simp
    from Cons.IH [OF this] show ?thesis
    proof
      assume "c \<in> set calls" then show ?thesis by simp
    next
      assume "\<exists>j<length fs. c_outputPath c = join [b_sessionDir b, outputFileName (b_baseName b) (i + 1 + j) (fs ! j)]"
      then obtain j where "j < length fs"
        "c_outputPath c = join [b_sessionDir b, outputFileName (b_baseName b) (i + 1 + j) (fs ! j)]" by blast
      then have "Suc j < length (f # fs) \<and> c_outputPath c = join [b_sessionDir b, outputFileName (b_baseName b) (i + Suc j) ((f # fs) ! Suc j)]"
        by simp
      then show ?thesis by blast
    qed
  next
    case (Failed e x)
    show ?thesis
    proof (cases x)
      case None
      with Failed Cons.prems show ?thesis by simp
    next
      case (Some c')
      with Failed Cons.prems have "c \<in> set calls \<or> c = c'" by auto
      then show ?thesis
      proof
        assume "c \<in> set calls" then show ?thesis by simp
      next
        assume "c = c'"
        with process_file_Failed_call [of d w b i f e c'] Failed Some
        have "0 < length (f # fs) \<and> c_outputPath c = join [b_sessionDir b, outputFileName (b_baseName b) (i + 0) ((f # fs) ! 0)]"
          by simp
        then show ?thesis by blast
      qed
    qed
  next
    case (Done p c')
    with Cons.prems have "c \<in> set (snd (process_loop d w b (i + 1) fs (acc @ [p]) (calls @ [c'])))" by simp
    from Cons.IH [OF this] show ?thesis
    proof
      assume "c \<in> set (calls @ [c'])"
      then have "c \<in> set calls \<or> c = c'" by auto
      then show ?thesis
      proof
        assume "c \<in> set calls" then show ?thesis by simp
      next
        assume "c = c'"
        with process_file_Done [OF Done]
        have "0 < length (f # fs) \<and> c_outputPath c = join [b_sessionDir b, outputFileName (b_baseName b) (i + 0) ((f # fs) ! 0)]"
          by simp
        then show ?thesis by blast
      qed
    next
      assume "\<exists>j<length fs. c_outputPath c = join [b_sessionDir b, outputFileName (b_baseName b) (i + 1 + j) (fs ! j)]"
      then obtain j where "j < length fs"
        "c_outputPath c = join [b_sessionDir b, outputFileName (b_baseName b) (i + 1 + j) (fs ! j)]" by blast
      then have "Suc j < length (f # fs) \<and> c_outputPath c = join [b_sessionDir b, outputFileName (b_baseName b) (i + Suc j) ((f # fs) ! Suc j)]"
        by simp
      then show ?thesis by blast
    qed
  qed
qed


lemma outputFileName_1: "outputFileName base 0 f = base @ ''_1'' @ originalExt f"
proof -
  have "string_of_nat (0 + 1) = ''1''" by code_simp
  then show ?thesis by (simp only: outputFileName_def append_Cons append_Nil)
qed

lemma outputFileName_3: "outputFileName base 2 f = base @ ''_3'' @ originalExt f"
proof -
  have "string_of_nat (2 + 1) = ''3''" by code_simp
  then show ?thesis by (simp only: outputFileName_def append_Cons append_Nil)
qed

lemma process_Ok200_entries:
  assumes "fst (process d w req) = Ok200 sid out" and "p \<in> set out"
  shows "\<exists>fs j. req_files req = Some fs \<and> j < length fs
           \<and> p_originalName p = originalName (fs ! j)
           \<and> p_fileName p = outputFileName (baseName_of (req_outputBaseName req)) j (fs ! j)"
proof -
  from assms(1) obtain sid' fs where r: "req_sessionId req = Some sid'" "req_files req = Some fs"
    by (auto simp: process_def split: option.splits)
  let ?b = "batch_of d sid' req"
  from assms(1) r have ok: "fst (process_loop d w ?b 0 fs [] []) = Inr out"
    by (cases "process_loop d w ?b 0 fs [] []")
       (auto simp: process_def split: if_splits sum.splits)
  with process_loop_result [of d w ?b 0 fs "[]" "[]"]
  have "out = done_entries d w ?b 0 fs" by auto
  with assms(2) done_entries_named [of p d w ?b 0 fs] obtain j where
    "j < length fs" "p_originalName p = originalName (fs ! j)"
    "p_fileName p = outputFileName (b_baseName ?b) j (fs ! j)" by auto
  with r show ?thesis by (auto simp: batch_of_def)
qed

section \<open>Per-file failures in a batch\<close>




text \<open>
  Claim C3, as stated: for a batch \<open>[A, B, C]\<close> in which probing \<open>B\<close> fails while \<open>A\<close> and
  \<open>C\<close> succeed, the result list is \<open>[A', C']\<close> with names \<open>{base}_1{ext}\<close> and
  \<open>{base}_3{ext}\<close>. When the probe of \<open>B\<close> fails the request fails with status 500
  after \<open>A\<close> has been written, and \<open>C\<close> is never visited.
\<close>

theorem probe_failure_in_middle_fails_request:
  "process api_streamcopy (world_probe_fails 1) (example_request [example_A, example_B, example_C] None)
     = (Err500 ''ffprobe exited with code 1'',
        [\<lparr>c_input = ''/tmp/uploads/u1-a.mov'', c_args = SeekDuration 1 8,
          c_outputPath = ''/tmp/output/s1/trimmed_1.mov''\<rparr>])"
  by code_simp

text \<open>
  Claim C3, amended: for a batch \<open>[A, B, C]\<close> in which \<open>B\<close> is skipped, because its upload
  path no longer exists or because it is too short to trim, while \<open>A\<close> and \<open>C\<close> succeed,
  the result list is exactly \<open>[A', C']\<close> in that order, where \<open>A'\<close> has output name
  \<open>{base}_1{ext}\<close> and \<open>C'\<close> has output name \<open>{base}_3{ext}\<close>: the number is the
  1-based input position, so the skipped position 2 leaves a gap.
\<close>

theorem skipped_position_leaves_gap:
  assumes "req_sessionId req = Some sid" and "sid \<noteq> []"
    and "req_files req = Some [A, B, C]"
    and "w_pathExists w 0" and "w_ffprobe w 0 = Inr DA"
    and "plan (d_policy d) DA (or_zero (req_trimStart req)) (or_zero (req_trimEnd req)) = Some argsA"
    and "w_ffmpeg w 0 = None"
    and "\<not> w_pathExists w 1
         \<or> (\<exists>DB. w_ffprobe w 1 = Inr DB
               \<and> plan (d_policy d) DB (or_zero (req_trimStart req)) (or_zero (req_trimEnd req)) = None)"
    and "w_pathExists w 2" and "w_ffprobe w 2 = Inr DC"
    and "plan (d_policy d) DC (or_zero (req_trimStart req)) (or_zero (req_trimEnd req)) = Some argsC"
    and "w_ffmpeg w 2 = None"
  shows "fst (process d w req) =
           Ok200 sid
             [\<lparr>p_originalName = originalName A,
               p_fileName = baseName_of (req_outputBaseName req) @ ''_1'' @ originalExt A,
               p_url = d_urlPrefix d @ sid @ ''/'' @ baseName_of (req_outputBaseName req) @ ''_1'' @ originalExt A\<rparr>,
              \<lparr>p_originalName = originalName C,
               p_fileName = baseName_of (req_outputBaseName req) @ ''_3'' @ originalExt C,
               p_url = d_urlPrefix d @ sid @ ''/'' @ baseName_of (req_outputBaseName req) @ ''_3'' @ originalExt C\<rparr>]"
proof -
  let ?b = "batch_of d sid req"
  let ?base = "baseName_of (req_outputBaseName req)"
  let ?pA = "\<lparr>p_originalName = originalName A, p_fileName = ?base @ ''_1'' @ originalExt A,
              p_url = d_urlPrefix d @ sid @ ''/'' @ ?base @ ''_1'' @ originalExt A\<rparr>"
  let ?pC = "\<lparr>p_originalName = originalName C, p_fileName = ?base @ ''_3'' @ originalExt C,
              p_url = d_urlPrefix d @ sid @ ''/'' @ ?base @ ''_3'' @ originalExt C\<rparr>"
  have sA: "\<exists>c. process_file d w ?b 0 A = Done ?pA c"
    using assms(4-7)
    by (simp add: process_file_def batch_of_def outputFileName_1 Let_def)
  have sB: "process_file d w ?b 1 B = Skipped"
    using assms(8) by (auto simp: process_file_def batch_of_def Let_def)
  have sC: "\<exists>c. process_file d w ?b 2 C = Done ?pC c"
    using assms(9-12)
    by (simp add: process_file_def batch_of_def outputFileName_3 Let_def)
  from sA obtain cA where sA': "process_file d w ?b 0 A = Done ?pA cA" by blast
  from sC obtain cC where sC': "process_file d w ?b 2 C = Done ?pC cC" by blast
  have n1: "(0::nat) + 1 = 1" and n2: "(1::nat) + 1 = 2" by simp_all
  have "process_loop d w ?b 0 [A, B, C] [] [] = (Inr [?pA, ?pC], [cA, cC])"
    by (simp only: process_loop.simps n1 n2 sA' sB sC' step_result.case append_Nil append_Cons)
  then show ?thesis
    using assms(1-3) by (simp add: process_def)
qed

theorem skipped_position_leaves_gap_witness:
  "fst (process api_reencode (world_missing 1) (example_request [example_A, example_B, example_C] (Some ''clip'')))
     = Ok200 ''s1''
         [\<lparr>p_originalName = ''a.mov'', p_fileName = ''clip_1.mov'', p_url = ''/api/output/s1/clip_1.mov''\<rparr>,
          \<lparr>p_originalName = ''c'', p_fileName = ''clip_3.mp4'', p_url = ''/api/output/s1/clip_3.mp4''\<rparr>]"
proof -
  let ?req = "example_request [example_A, example_B, example_C] (Some ''clip'')"
  let ?w = "world_missing 1"
  have h1: "req_sessionId ?req = Some ''s1''" by (simp add: example_request_def)
  have h2: "''s1'' \<noteq> []" by simp
  have h3: "req_files ?req = Some [example_A, example_B, example_C]" by (simp add: example_request_def)
  have e0: "w_pathExists ?w 0" and e2: "w_pathExists ?w 2" by (simp_all add: world_missing_def)
  have p0: "w_ffprobe ?w 0 = Inr 10" and p2: "w_ffprobe ?w 2 = Inr 10" by (simp_all add: world_missing_def)
  have pl: "plan (d_policy api_reencode) 10 (or_zero (req_trimStart ?req)) (or_zero (req_trimEnd ?req))
      = Some (SeekTo 1 9)" by code_simp
  have f0: "w_ffmpeg ?w 0 = None" and f2: "w_ffmpeg ?w 2 = None" by (simp_all add: world_missing_def)
  have sk: "\<not> w_pathExists ?w 1
      \<or> (\<exists>DB. w_ffprobe ?w 1 = Inr DB
            \<and> plan (d_policy api_reencode) DB (or_zero (req_trimStart ?req)) (or_zero (req_trimEnd ?req)) = None)"
    by (simp add: world_missing_def)
  have b: "baseName_of (req_outputBaseName ?req) = ''clip''" by code_simp
  have xa: "originalExt example_A = ''.mov''" and xc: "originalExt example_C = ''.mp4''" by code_simp+
  have u: "d_urlPrefix api_reencode = ''/api/output/''" by (simp add: api_reencode_def)
  have na: "originalName example_A = ''a.mov''" and nc: "originalName example_C = ''c''"
    by (simp_all add: example_A_def example_C_def)
  from skipped_position_leaves_gap [OF h1 h2 h3 e0 p0 pl f0 sk e2 p2 pl f2]
  show ?thesis unfolding b xa xc u na nc by simp
qed

section \<open>Output names\<close>



text \<open>
  Claim C10: for an input file whose original name has no extension the generated output
  name ends in \<open>.mp4\<close>, that is, it is \<open>{baseName}_{index+1}.mp4\<close>; for an input file
  with an extension the original extension is kept verbatim. A name without a dot has no
  extension; a name \<open>stem.e\<close>, with \<open>e\<close> free of dots and separators, has the extension
  \<open>.e\<close>. Every entry of a successful response is named in this way from the position
  of its file in the request.
\<close>

theorem output_extension:
  "(extname (originalName file) = [] \<longrightarrow>
      outputFileName baseName i file = baseName @ ''_'' @ string_of_nat (i + 1) @ ''.mp4'')
   \<and> (extname (originalName file) \<noteq> [] \<longrightarrow>
      outputFileName baseName i file = baseName @ ''_'' @ string_of_nat (i + 1) @ extname (originalName file))
   \<and> (CHR ''.'' \<notin> set (originalName file) \<longrightarrow> extname (originalName file) = [])
   \<and> (originalName file = stem @ ''.'' @ e \<and> stem \<noteq> [] \<and> last stem \<noteq> CHR ''/''
        \<and> e \<noteq> [] \<and> CHR ''/'' \<notin> set e \<and> CHR ''.'' \<notin> set e \<longrightarrow>
      extname (originalName file) = ''.'' @ e)
   \<and> (fst (process d w req) = Ok200 sid out \<and> p \<in> set out \<longrightarrow>
        (\<exists>fs j. req_files req = Some fs \<and> j < length fs
           \<and> p_originalName p = originalName (fs ! j)
           \<and> p_fileName p = outputFileName (baseName_of (req_outputBaseName req)) j (fs ! j)))"
  using extname_no_dot [of "originalName file"] extname_stem_ext [of stem e]
    process_Ok200_entries [of d w req sid out p]
  by (auto simp: outputFileName_def originalExt_def)

theorem output_extension_witness:
  "extname (originalName example_C) = [] \<and> outputFileName ''trimmed'' 2 example_C = ''trimmed_3.mp4''
   \<and> outputFileName ''trimmed'' 0 \<lparr>originalName = ''Holiday.MOV'', uploadPath = ''/tmp/uploads/u4''\<rparr>
       = ''trimmed_1.MOV''"
proof -
  let ?f = "\<lparr>originalName = ''Holiday.MOV'', uploadPath = ''/tmp/uploads/u4''\<rparr>"
  have c: "CHR ''.'' \<notin> set (originalName example_C)" by (simp add: example_C_def)
  have s3: "string_of_nat (2 + 1) = ''3''" and s1: "string_of_nat (0 + 1) = ''1''" by code_simp+
  from output_extension [of example_C "''trimmed''" 2] c
  have x: "extname (originalName example_C) = []"
    and 1: "outputFileName ''trimmed'' 2 example_C = ''trimmed'' @ ''_'' @ string_of_nat (2 + 1) @ ''.mp4''"
    by blast+
  have n: "originalName ?f = ''Holiday'' @ ''.'' @ ''MOV''" by simp
  from output_extension [of ?f "''trimmed''" 0 "''Holiday''" "''MOV''"] n
  have "outputFileName ''trimmed'' 0 ?f = ''trimmed'' @ ''_'' @ string_of_nat (0 + 1) @ ''.'' @ ''MOV''"
    by auto
  with x 1 show ?thesis unfolding s3 s1 by simp
qed

section \<open>The upload filter\<close>

text \<open>
  What the filter computes: a file passes exactly when the lower-cased extension of its
  original name contains one of \<open>mp4, mov, avi, mkv, webm\<close> and its reported content
  type contains one of them.
\<close>

lemma fileFilter_substring:
  "(fileFilter file = Inr () \<longleftrightarrow>
      (\<exists>a\<in>set allowedTypes. sublist a (toLowerCase (extname (originalname file))))
      \<and> (\<exists>a\<in>set allowedTypes. sublist a (mimetype file)))
   \<and> (fileFilter file \<noteq> Inr () \<longrightarrow> fileFilter file = Inl ''Only video files are allowed'')"
  by (auto simp: fileFilter_def regex_test_sublist Let_def)

text \<open>
  Claim C7: an uploaded file is accepted if and only if its extension and its content type
  belong to the allow-list \<open>mp4, mov, avi, mkv, webm\<close>, and any file whose extension or
  content type is outside that list is rejected. The filter's pattern is not anchored and
  it is matched against the content type, which for three of the five formats does not
  contain the format's name. So the code misses the claim in both directions. A QuickTime
  file \<open>clip.mov\<close> of type \<open>video/quicktime\<close>, a Matroska file of type
  \<open>video/x-matroska\<close> and an AVI file of type \<open>video/x-msvideo\<close> are rejected, although
  their formats are on the list; \<open>clip.mp4x\<close> of type \<open>video/mp4\<close> and \<open>notes.movie\<close>
  of type \<open>text/x-webmaster\<close> are accepted, although their extensions are not.
\<close>

theorem fileFilter_misses_allow_list:
  "fileFilter \<lparr>originalname = ''clip.mov'', mimetype = ''video/quicktime''\<rparr>
     = Inl ''Only video files are allowed''
   \<and> fileFilter \<lparr>originalname = ''clip.mkv'', mimetype = ''video/x-matroska''\<rparr>
     = Inl ''Only video files are allowed''
   \<and> fileFilter \<lparr>originalname = ''clip.avi'', mimetype = ''video/x-msvideo''\<rparr>
     = Inl ''Only video files are allowed''
   \<and> fileFilter \<lparr>originalname = ''clip.mp4'', mimetype = ''video/mp4''\<rparr> = Inr ()
   \<and> fileFilter \<lparr>originalname = ''clip.mp4x'', mimetype = ''video/mp4''\<rparr> = Inr ()
   \<and> toLowerCase (extname ''clip.mp4x'') = ''.mp4x''
   \<and> fileFilter \<lparr>originalname = ''notes.movie'', mimetype = ''text/x-webmaster''\<rparr> = Inr ()"
  by code_simp

section \<open>Facts about decimal numbers and splitting\<close>


lemma is_digit_digit_char: "d < 10 \<Longrightarrow> is_digit (digit_char d)"
  by (simp add: is_digit_def digit_char_def)


lemma string_of_nat_digits: "c \<in> set (string_of_nat n) \<Longrightarrow> is_digit c"
proof (induction n rule: string_of_nat.induct)
  case (1 n)
  show ?case
  proof (cases "n < 10")
    case True
    with "1.prems" show ?thesis
      by (subst (asm) string_of_nat.simps) (simp add: is_digit_digit_char)
  next
    case False
    with "1.prems" have "c \<in> set (string_of_nat (n div 10)) \<or> c = digit_char (n mod 10)"
      by (subst (asm) string_of_nat.simps) auto
    with "1.IH" False show ?thesis by (auto simp: is_digit_digit_char)
  qed
qed






lemma split_on_absent: "c \<notin> set s \<Longrightarrow> split_on c s = [s]"
  by (induction s) auto

lemma split_on_nonempty: "split_on c s \<noteq> []"
  by (induction s) (auto split: list.splits)

lemma split_on_append: "split_on c (a @ c # b) = split_on c a @ split_on c b"
proof (induction a)
  case Nil
  then show ?case by simp
next
  case (Cons x a)
  then show ?case
    using split_on_nonempty [of c a] by (cases "split_on c a") auto
qed



section \<open>Byte ranges\<close>

lemma parseInt_examples:
  "parseInt '' 5'' = Some 5 \<and> parseInt ([CHR 0xA0] @ ''5'') = Some 5
   \<and> parseInt ''-5'' = Some (- 5) \<and> parseInt ''5x'' = Some 5
   \<and> parseInt ''abc'' = None \<and> parseInt [] = None"
  by code_simp

text \<open>
  When \<open>parseInt\<close> yields \<open>NaN\<close>: nothing is left after the leading white space, or
  what is left, after one sign if it starts with one, does not start with a decimal
  digit.
\<close>

lemma parseInt_None_iff:
  "parseInt s = None \<longleftrightarrow>
     (case dropWhile is_space s of
        [] \<Rightarrow> True
      | c # cs \<Rightarrow>
          if c = CHR ''-'' \<or> c = CHR ''+'' then cs = [] \<or> \<not> is_digit (hd cs)
          else \<not> is_digit c)"
proof (cases "dropWhile is_space s")
  case Nil
  show ?thesis unfolding parseInt_def Nil by simp
next
  case (Cons c cs)
  show ?thesis unfolding parseInt_def Cons
    by (simp add: parse_digits_def Let_def takeWhile_eq_Nil_iff)
qed

lemma valid_content_disposition:
  "list_all valid_header_char (content_disposition fname) \<longleftrightarrow> list_all valid_header_char fname"
  by (simp add: content_disposition_def valid_header_char_def)






text \<open>
  Claim C4, as stated: a malformed range header (present, but not of the form
  \<open>bytes=start-end\<close> with a numeric start) is treated as if no range header had been
  sent, and the full file is returned with status 200. The handler parses every non-empty
  header: \<open>abc\<close> gives the start \<open>NaN\<close>, which \<open>fs.createReadStream\<close> refuses, and
  the request fails with status 500; \<open>2-5\<close>, which lacks the unit, is served as a range
  with status 206.
\<close>

theorem malformed_range_not_full_file:
  "serve_output ''/tmp/output'' example_disk ''s1'' ''trimmed_1.mp4'' (Some ''abc'')
     = Json 500 (MessageOf (ERR_OUT_OF_RANGE ''start''))
   \<and> serve_output ''/tmp/output'' example_disk ''s1'' ''trimmed_1.mp4'' (Some ''2-5'')
     = Piped 206
         [(''Content-Range'', ''bytes 2-5/10''), (''Accept-Ranges'', ''bytes''),
          (''Content-Length'', ''4''), (''Content-Type'', ''video/mp4'')]
         ''2345''
   \<and> status (serve_output ''/tmp/output'' example_disk ''s1'' ''trimmed_1.mp4'' None) = 200"
  by code_simp

text \<open>
  Claim C4, amended: only an absent or empty range header is handled as a request for the
  full file (answered with status 200 when the file name is valid in a header). Every
  non-empty header is handled as a range request, whose status is 206 or 500. After the
  first \<open>bytes=\<close> has been deleted from the header, the text before its first \<open>-\<close> is
  read by \<open>parseInt\<close>: when that yields \<open>NaN\<close>, that is, when no decimal digit follows
  the optional white space and the one optional sign at its beginning, the request fails
  with status 500 and the message of Node's range error for \<open>start\<close>.
\<close>

theorem nonempty_range_never_full:
  assumes "disk (join [OUTPUT_DIR, sid, fname]) = Some content"
  shows "serve_output OUTPUT_DIR disk sid fname (Some []) = serve_output OUTPUT_DIR disk sid fname None
       \<and> (list_all valid_header_char fname \<longrightarrow>
            status (serve_output OUTPUT_DIR disk sid fname None) = 200)
       \<and> (r \<noteq> [] \<longrightarrow> status (serve_output OUTPUT_DIR disk sid fname (Some r)) = 206
                      \<or> status (serve_output OUTPUT_DIR disk sid fname (Some r)) = 500)
       \<and> (r \<noteq> [] \<and> parseInt (split_on CHR ''-'' (remove_first ''bytes='' r) ! 0) = None \<longrightarrow>
            serve_output OUTPUT_DIR disk sid fname (Some r)
              = Json 500 (MessageOf (ERR_OUT_OF_RANGE ''start'')))"
proof (intro conjI impI)
  show "serve_output OUTPUT_DIR disk sid fname (Some []) = serve_output OUTPUT_DIR disk sid fname None"
    using assms by (simp add: serve_output_def)
  show "status (serve_output OUTPUT_DIR disk sid fname None) = 200"
    if "list_all valid_header_char fname"
    using assms that by (simp add: serve_output_def full_response_def valid_content_disposition)
  show "status (serve_output OUTPUT_DIR disk sid fname (Some r)) = 206
        \<or> status (serve_output OUTPUT_DIR disk sid fname (Some r)) = 500" if "r \<noteq> []"
    using assms that
    by (auto simp: serve_output_def partial_response_def Let_def split: sum.splits)
  show "serve_output OUTPUT_DIR disk sid fname (Some r) = Json 500 (MessageOf (ERR_OUT_OF_RANGE ''start''))"
    if "r \<noteq> [] \<and> parseInt (split_on CHR ''-'' (remove_first ''bytes='' r) ! 0) = None"
    using assms that
    by (simp add: serve_output_def Let_def createReadStream_options_def checkPosition_def)
qed

theorem nonempty_range_never_full_witness:
  "parseInt (split_on CHR ''-'' (remove_first ''bytes='' ''bytes=abc-def'') ! 0) = None
   \<and> serve_output ''/tmp/output'' example_disk ''s1'' ''trimmed_1.mp4'' (Some ''bytes=abc-def'')
       = Json 500 (MessageOf (ERR_OUT_OF_RANGE ''start''))
   \<and> status (serve_output ''/tmp/output'' example_disk ''s1'' ''trimmed_1.mp4'' None) = 200"
proof -
  have p: "join [''/tmp/output'', ''s1'', ''trimmed_1.mp4''] = ''/tmp/output/s1/trimmed_1.mp4''"
    by code_simp
  have d: "example_disk (join [''/tmp/output'', ''s1'', ''trimmed_1.mp4'']) = Some ''0123456789''"
    unfolding p by (simp add: example_disk_def)
  have n: "''bytes=abc-def'' \<noteq> []" by simp
  have q: "parseInt (split_on CHR ''-'' (remove_first ''bytes='' ''bytes=abc-def'') ! 0) = None"
    by code_simp
  have v: "list_all valid_header_char ''trimmed_1.mp4''" by code_simp
  from nonempty_range_never_full
      [of example_disk "''/tmp/output''" "''s1''" "''trimmed_1.mp4''" "''0123456789''" "''bytes=abc-def''"]
    d n q v
  show ?thesis by blast
qed

section \<open>Where the outputs are written\<close>

lemma split_on_no_sep: "s \<in> set (split_on c p) \<Longrightarrow> c \<notin> set s"
proof (induction p arbitrary: s)
  case Nil
  then show ?case by simp
next
  case (Cons x p)
  show ?case
  proof (cases "x = c")
    case True
    with Cons show ?thesis by auto
  next
    case False
    with Cons show ?thesis
      by (cases "split_on c p") (auto split: list.splits)
  qed
qed

lemma norm_step_plain:
  "\<forall>s\<in>set st. plain_segment s \<Longrightarrow> CHR ''/'' \<notin> set seg
   \<Longrightarrow> \<forall>s\<in>set (norm_step False st seg). plain_segment s"
  by (cases st) (auto simp: norm_step_def plain_segment_def)

lemma foldl_norm_step_plain:
  "\<forall>s\<in>set st. plain_segment s \<Longrightarrow> \<forall>s\<in>set xs. CHR ''/'' \<notin> set s
   \<Longrightarrow> \<forall>s\<in>set (foldl (norm_step False) st xs). plain_segment s"
proof (induction xs arbitrary: st)
  case Nil
  then show ?case by simp
next
  case (Cons x xs)
  have "\<forall>s\<in>set (norm_step False st x). plain_segment s"
    using Cons.prems norm_step_plain [of st x] by simp
  with Cons.IH [of "norm_step False st x"] Cons.prems show ?case by simp
qed

lemma intercalate_nonempty:
  "segs \<noteq> [] \<Longrightarrow> \<forall>s\<in>set segs. s \<noteq> [] \<Longrightarrow> intercalate sep segs \<noteq> []"
  by (induction sep segs rule: intercalate.induct) auto

lemma intercalate_snoc:
  "segs \<noteq> [] \<Longrightarrow> intercalate sep (segs @ [x]) = intercalate sep segs @ sep @ x"
  by (induction sep segs rule: intercalate.induct) auto

lemma last_intercalate:
  "segs \<noteq> [] \<Longrightarrow> \<forall>s\<in>set segs. s \<noteq> [] \<Longrightarrow> last (intercalate sep segs) = last (last segs)"
proof (induction sep segs rule: intercalate.induct)
  case (1 sep)
  then show ?case by simp
next
  case (2 sep x)
  then show ?case by simp
next
  case (3 sep x y ys)
  then have "intercalate sep (y # ys) \<noteq> []"
    using intercalate_nonempty [of "y # ys" sep] by simp
  with 3 show ?case by simp
qed

lemma split_on_intercalate:
  "segs \<noteq> [] \<Longrightarrow> \<forall>s\<in>set segs. c \<notin> set s \<Longrightarrow> split_on c (intercalate [c] segs) = segs"
proof (induction "[c]" segs rule: intercalate.induct)
  case 1
  then show ?case by simp
next
  case (2 x)
  then show ?case by (simp add: split_on_absent)
next
  case (3 x y ys)
  then show ?case by (simp add: split_on_append split_on_absent)
qed

lemma foldl_norm_step_plain_segments:
  "\<forall>s\<in>set xs. plain_segment s \<or> s = []
   \<Longrightarrow> foldl (norm_step a) st xs = rev (filter (\<lambda>s. s \<noteq> []) xs) @ st"
proof (induction xs arbitrary: st)
  case Nil
  then show ?case by simp
next
  case (Cons x xs)
  then show ?case by (auto simp: norm_step_def plain_segment_def)
qed

lemma normalize_absolute_form:
  assumes "p \<noteq> []" and "hd p = CHR ''/''"
  shows "\<exists>segs trail. (\<forall>s\<in>set segs. plain_segment s)
           \<and> normalize_path p = CHR ''/'' # intercalate ''/'' segs @ trail
           \<and> (trail = [] \<or> (trail = ''/'' \<and> segs \<noteq> []))"
proof -
  define segs where "segs = rev (foldl (norm_step False) [] (split_on CHR ''/'' p))"
  have plain: "\<forall>s\<in>set segs. plain_segment s"
    unfolding segs_def using foldl_norm_step_plain [of "[]" "split_on CHR ''/'' p"] split_on_no_sep
    by auto
  show ?thesis
  proof (cases "segs = []")
    case True
    then have "normalize_path p = CHR ''/'' # intercalate ''/'' segs @ []"
      using assms by (simp add: normalize_path_def segs_def [symmetric])
    with plain show ?thesis by blast
  next
    case False
    then have ne: "intercalate ''/'' segs \<noteq> []"
      using plain intercalate_nonempty [of segs "''/''"] by (auto simp: plain_segment_def)
    then have "normalize_path p = CHR ''/'' # intercalate ''/'' segs @ (if last p = CHR ''/'' then ''/'' else [])"
      using assms by (simp add: normalize_path_def segs_def [symmetric] Let_def)
    with plain False show ?thesis by (cases "last p = CHR ''/''") auto
  qed
qed

lemma normalize_append_plain:
  assumes "\<forall>s\<in>set segs. plain_segment s" and "plain_segment name"
    and "trail = [] \<or> (trail = ''/'' \<and> segs \<noteq> [])"
  shows "normalize_path ((CHR ''/'' # intercalate ''/'' segs @ trail) @ ''/'' @ name)
           = CHR ''/'' # intercalate ''/'' (segs @ [name])"
proof -
  let ?q = "(CHR ''/'' # intercalate ''/'' segs @ trail) @ ''/'' @ name"
  have nosep: "\<forall>s\<in>set segs. CHR ''/'' \<notin> set s" and nosep_name: "CHR ''/'' \<notin> set name"
    and name_ne: "name \<noteq> []"
    using assms(1,2) by (auto simp: plain_segment_def)
  have split: "filter (\<lambda>s. s \<noteq> []) (split_on CHR ''/'' ?q) = segs @ [name]
      \<and> (\<forall>s\<in>set (split_on CHR ''/'' ?q). plain_segment s \<or> s = [])"
  proof (cases "segs = []")
    case True
    with assms(3) have "trail = []" by auto
    with True have "split_on CHR ''/'' ?q = [[], [], name]"
      using nosep_name by (simp add: split_on_absent)
    with True assms(2) name_ne show ?thesis by simp
  next
    case False
    have si: "split_on CHR ''/'' (intercalate ''/'' segs) = segs"
      using split_on_intercalate [OF False, of "CHR ''/''"] nosep by simp
    have ne: "\<forall>s\<in>set segs. s \<noteq> []" using assms(1) by (auto simp: plain_segment_def)
    from assms(3) show ?thesis
    proof
      assume "trail = []"
      then have "split_on CHR ''/'' ?q = [] # segs @ [name]"
        using split_on_append [of "CHR ''/''" "intercalate ''/'' segs" name] si nosep_name
        by (simp add: split_on_absent)
      with assms(1,2) ne name_ne show ?thesis by (simp add: filter_id_conv)
    next
      assume "trail = ''/'' \<and> segs \<noteq> []"
      then have "split_on CHR ''/'' ?q = [] # segs @ [[], name]"
        using split_on_append [of "CHR ''/''" "intercalate ''/'' segs" "CHR ''/'' # name"] si nosep_name
        by (simp add: split_on_absent)
      with assms(1,2) ne name_ne show ?thesis by (simp add: filter_id_conv)
    qed
  qed
  then have fold: "rev (foldl (norm_step False) [] (split_on CHR ''/'' ?q)) = segs @ [name]"
    using foldl_norm_step_plain_segments [of "split_on CHR ''/'' ?q" False "[]"] by simp
  have last: "last ?q \<noteq> CHR ''/''"
    using name_ne nosep_name by (cases name rule: rev_cases) auto
  have ne: "intercalate ''/'' (segs @ [name]) \<noteq> []"
    using intercalate_nonempty [of "segs @ [name]" "''/''"] assms(1,2)
    by (auto simp: plain_segment_def)
  have hd: "hd ?q = CHR ''/''" and q_ne: "?q \<noteq> []" by simp_all
  show ?thesis
    unfolding normalize_path_def Let_def using q_ne hd last ne fold by simp
qed

lemma with_sep_append_plain:
  assumes "\<forall>s\<in>set segs. plain_segment s"
    and "trail = [] \<or> (trail = ''/'' \<and> segs \<noteq> [])"
  shows "with_sep (CHR ''/'' # intercalate ''/'' segs @ trail) @ name
           = CHR ''/'' # intercalate ''/'' (segs @ [name])"
proof (cases "segs = []")
  case True
  with assms(2) show ?thesis by (auto simp: with_sep_def)
next
  case False
  have ne: "\<forall>s\<in>set segs. s \<noteq> []" using assms(1) by (auto simp: plain_segment_def)
  have ine: "intercalate ''/'' segs \<noteq> []"
    using intercalate_nonempty [OF False ne] .
  have "last (last segs) \<noteq> CHR ''/''"
  proof -
    have "last segs \<in> set segs" using False by simp
    then have "plain_segment (last segs)" using assms(1) by blast
    then show ?thesis by (cases "last segs" rule: rev_cases) (auto simp: plain_segment_def)
  qed
  then have l: "last (intercalate ''/'' segs) \<noteq> CHR ''/''"
    using last_intercalate [OF False ne, of "''/''"] by simp
  from assms(2) show ?thesis
  proof
    assume "trail = []"
    with l ine False show ?thesis by (simp add: with_sep_def intercalate_snoc)
  next
    assume "trail = ''/'' \<and> segs \<noteq> []"
    with False show ?thesis by (simp add: with_sep_def intercalate_snoc)
  qed
qed

lemma join_inside:
  assumes "dir \<noteq> []" and "hd dir = CHR ''/''" and "sid \<noteq> []" and "plain_segment name"
  shows "join [join [dir, sid], name] = with_sep (join [dir, sid]) @ name"
proof -
  have j: "join [dir, sid] = normalize_path (dir @ ''/'' @ sid)"
    using assms(1,3) by (simp add: join_def)
  have "dir @ ''/'' @ sid \<noteq> []" and "hd (dir @ ''/'' @ sid) = CHR ''/''"
    using assms(1,2) by simp_all
  from normalize_absolute_form [OF this] obtain segs trail where
    plain: "\<forall>s\<in>set segs. plain_segment s"
    and n: "normalize_path (dir @ ''/'' @ sid) = CHR ''/'' # intercalate ''/'' segs @ trail"
    and t: "trail = [] \<or> (trail = ''/'' \<and> segs \<noteq> [])" by blast
  have name_ne: "name \<noteq> []" using assms(4) by (simp add: plain_segment_def)
  have "join [join [dir, sid], name] = normalize_path (join [dir, sid] @ ''/'' @ name)"
    using name_ne j n by (simp add: join_def)
  also have "\<dots> = CHR ''/'' # intercalate ''/'' (segs @ [name])"
    unfolding j n using normalize_append_plain [OF plain assms(4) t] .
  also have "\<dots> = with_sep (join [dir, sid]) @ name"
    unfolding j n using with_sep_append_plain [OF plain t, of name] by simp
  finally show ?thesis .
qed

lemma slash_not_digit: "CHR ''/'' \<notin> set (string_of_nat n)"
proof
  assume "CHR ''/'' \<in> set (string_of_nat n)"
  then have "is_digit CHR ''/''" by (rule string_of_nat_digits)
  then show False by (simp add: is_digit_def)
qed

lemma slash_not_in_last_component: "CHR ''/'' \<notin> set (last_component p)"
  unfolding last_component_def by (auto dest: set_takeWhileD)

lemma slash_not_in_extname: "CHR ''/'' \<notin> set (extname p)"
proof -
  have "set (rev (takeWhile (\<lambda>c. c \<noteq> CHR ''.'') (rev (last_component p)))) \<subseteq> set (last_component p)"
    by (auto dest: set_takeWhileD)
  with slash_not_in_last_component [of p] show ?thesis
    by (auto simp: extname_def Let_def)
qed

lemma slash_not_in_originalExt: "CHR ''/'' \<notin> set (originalExt f)"
  using slash_not_in_extname by (simp add: originalExt_def)

lemma plain_outputFileName:
  assumes "CHR ''/'' \<notin> set base"
  shows "plain_segment (outputFileName base i f)"
proof -
  have u: "CHR ''_'' \<in> set (outputFileName base i f)"
    by (simp add: outputFileName_def)
  have "CHR ''/'' \<notin> set (outputFileName base i f)"
    using assms slash_not_digit slash_not_in_originalExt by (simp add: outputFileName_def)
  moreover have "outputFileName base i f \<noteq> []" using u by auto
  moreover have "outputFileName base i f \<noteq> ''.''" using u by auto
  moreover have "outputFileName base i f \<noteq> ''..''" using u by auto
  ultimately show ?thesis by (simp add: plain_segment_def)
qed

lemma set_trim: "set (trim s) \<subseteq> set s"
proof -
  have "set (dropWhile is_space (rev (dropWhile is_space s))) \<subseteq> set (dropWhile is_space s)"
    using set_dropWhileD [of _ is_space "rev (dropWhile is_space s)"] by auto
  also have "\<dots> \<subseteq> set s"
    using set_dropWhileD [of _ is_space s] by auto
  finally show ?thesis by (simp add: trim_def)
qed

lemma slash_not_in_baseName:
  assumes "CHR ''/'' \<notin> set (case name of None \<Rightarrow> [] | Some s \<Rightarrow> s)"
  shows "CHR ''/'' \<notin> set (baseName_of name)"
proof (cases name)
  case None
  then show ?thesis by (simp add: baseName_of_def)
next
  case (Some s)
  with assms have "CHR ''/'' \<notin> set (trim s)" using set_trim [of s] by auto
  with Some show ?thesis by (simp add: baseName_of_def Let_def)
qed

text \<open>
  Claim C8, as stated: whatever session identifier and output base name a Process request
  supplies, every output file of the batch is written strictly inside that session's own
  output directory. The base name goes into the file name unchecked and \<open>path.join\<close>
  resolves \<open>..\<close>: with the base name \<open>../x\<close> the output of session \<open>s1\<close> is written
  to \<open>/tmp/output/x_1.mov\<close>, outside \<open>/tmp/output/s1\<close>.
\<close>

theorem base_name_escapes_session_dir:
  "map c_outputPath (snd (process api_reencode (world_missing 5) (example_request [example_A] (Some ''../x''))))
     = [''/tmp/output/x_1.mov'']
   \<and> join [d_outputDir api_reencode, ''s1''] = ''/tmp/output/s1''"
  by code_simp

text \<open>
  Claim C8, amended: for every Process request, with any session identifier, whose output
  base name contains no \<open>/\<close>, every engine run of the batch writes its output directly
  inside the session directory \<open>path.join(OUTPUT_DIR, sessionId)\<close>, for an absolute
  \<open>OUTPUT_DIR\<close>: the output path is that directory, a separator, and a file name
  without separators.
\<close>

theorem outputs_inside_session_dir:
  assumes "req_sessionId req = Some sid"
    and "d_outputDir d \<noteq> []" and "hd (d_outputDir d) = CHR ''/''"
    and "CHR ''/'' \<notin> set (case req_outputBaseName req of None \<Rightarrow> [] | Some s \<Rightarrow> s)"
    and "c \<in> set (snd (process d w req))"
  shows "\<exists>name. name \<noteq> [] \<and> CHR ''/'' \<notin> set name
           \<and> c_outputPath c = with_sep (join [d_outputDir d, sid]) @ name"
proof -
  let ?b = "batch_of d sid req"
  from assms(1,5) obtain fs where fs: "req_files req = Some fs" and sid: "sid \<noteq> []"
    by (cases "req_files req") (auto simp: process_def split: if_splits)
  from assms(1,5) fs sid have "c \<in> set (snd (process_loop d w ?b 0 fs [] []))"
    by (cases "process_loop d w ?b 0 fs [] []")
       (auto simp: process_def split: if_splits sum.splits)
  from process_loop_calls [OF this] obtain j where
    "c_outputPath c = join [b_sessionDir ?b, outputFileName (b_baseName ?b) (0 + j) (fs ! j)]"
    by auto
  then have out: "c_outputPath c
      = join [join [d_outputDir d, sid], outputFileName (baseName_of (req_outputBaseName req)) j (fs ! j)]"
    by (simp add: batch_of_def)
  let ?name = "outputFileName (baseName_of (req_outputBaseName req)) j (fs ! j)"
  have plain: "plain_segment ?name"
    using plain_outputFileName [OF slash_not_in_baseName [OF assms(4)]] .
  from join_inside [OF assms(2,3) sid plain] out
  have "c_outputPath c = with_sep (join [d_outputDir d, sid]) @ ?name" by simp
  with plain show ?thesis by (auto simp: plain_segment_def)
qed

theorem outputs_inside_session_dir_witness:
  "\<exists>name. name \<noteq> [] \<and> CHR ''/'' \<notin> set name
     \<and> c_outputPath \<lparr>c_input = ''/tmp/uploads/u1-a.mov'', c_args = SeekTo 1 9,
                       c_outputPath = ''/tmp/output/s1/clip_1.mov''\<rparr>
         = with_sep (join [d_outputDir api_reencode, ''s1'']) @ name"
proof -
  let ?req = "example_request [example_A] (Some ''clip'')"
  let ?c = "\<lparr>c_input = ''/tmp/uploads/u1-a.mov'', c_args = SeekTo 1 9,
             c_outputPath = ''/tmp/output/s1/clip_1.mov''\<rparr>"
  have h1: "req_sessionId ?req = Some ''s1''" by (simp add: example_request_def)
  have h2: "d_outputDir api_reencode \<noteq> []" by code_simp
  have h3: "hd (d_outputDir api_reencode) = CHR ''/''" by code_simp
  have h4: "CHR ''/'' \<notin> set (case req_outputBaseName ?req of None \<Rightarrow> [] | Some s \<Rightarrow> s)"
    by (simp add: example_request_def)
  have "snd (process api_reencode (world_missing 5) ?req) = [?c]" by code_simp
  then have h5: "?c \<in> set (snd (process api_reencode (world_missing 5) ?req))" by simp
  from outputs_inside_session_dir [OF h1 h2 h3 h4 h5] show ?thesis .
qed

end
